theory Spec2Isabelle
  imports Complex_Main
begin

section \<open>Arrays and the numpy primitives the notebook uses\<close>

text \<open>
  The notebook works on two-dimensional numpy arrays of float64. An array is modelled as
  the list of its rows, and a float64 as an exact real number: rounding, overflow and
  the special values of IEEE arithmetic are outside the model, except for the one place
  where the code divides (see \<open>np_divide\<close> below). A reduction such as
  \<open>np.sum\<close> or \<open>np.max\<close> without an axis runs over all entries of the array. The
  integers \<open>r\<close> and \<open>iters\<close> are Python's unbounded integers.

  A call that may not return has a result of type \<open>(error + 'a) option\<close>: \<open>None\<close> when it
  does not return, \<open>Some (Inl e)\<close> when it raises \<open>e\<close>, \<open>Some (Inr v)\<close> when it returns
  \<open>v\<close>.
\<close>

type_synonym matrix = "real list list"

datatype error = ValueError | LinAlgError | UnboundLocalError

definition np_abs :: "matrix \<Rightarrow> matrix" where
  "np_abs x = map (map abs) x"

definition np_sign :: "matrix \<Rightarrow> matrix" where
  "np_sign x = map (map sgn) x"

definition np_sub_scalar :: "matrix \<Rightarrow> real \<Rightarrow> matrix" where
  "np_sub_scalar x t = map (map (\<lambda>v. v - t)) x"

definition np_maximum_scalar :: "matrix \<Rightarrow> real \<Rightarrow> matrix" where
  "np_maximum_scalar x c = map (map (\<lambda>v. max v c)) x"

definition np_scale :: "real \<Rightarrow> matrix \<Rightarrow> matrix" where
  "np_scale c x = map (map (\<lambda>v. c * v)) x"

definition np_add :: "matrix \<Rightarrow> matrix \<Rightarrow> matrix" where
  "np_add x y = map2 (map2 (+)) x y"

definition np_sub :: "matrix \<Rightarrow> matrix \<Rightarrow> matrix" where
  "np_sub x y = map2 (map2 (-)) x y"

definition np_mul :: "matrix \<Rightarrow> matrix \<Rightarrow> matrix" where
  "np_mul x y = map2 (map2 (*)) x y"

definition np_zeros_like :: "matrix \<Rightarrow> matrix" where
  "np_zeros_like x = map (map (\<lambda>_. 0)) x"

definition np_sum :: "matrix \<Rightarrow> real" where
  "np_sum x = sum_list (concat x)"

text \<open>\<open>np.max\<close> of an array without entries raises ValueError.\<close>

definition np_max :: "matrix \<Rightarrow> error + real" where
  "np_max x = (if concat x = [] then Inl ValueError else Inr (Max (set (concat x))))"

definition same_shape :: "matrix \<Rightarrow> matrix \<Rightarrow> bool" where
  "same_shape x y \<longleftrightarrow> map length x = map length y"

section \<open>The root finder \<open>get_root\<close>\<close>

text \<open>
  The residual computed in the loop body:
  \<open>res = np.sum(np.maximum(np.abs(x) - t, 0)) - lambd\<close>.
\<close>

definition residual :: "matrix \<Rightarrow> real \<Rightarrow> real \<Rightarrow> real" where
  "residual x lambd t = np_sum (np_maximum_scalar (np_sub_scalar (np_abs x) t) 0) - lambd"

text \<open>
  The loop \<open>while not converge\<close> has no iteration cap. Its body runs at least once, since
  \<open>converge\<close> starts as \<open>False\<close>. The state of the loop is the pair \<open>t_lo\<close>, \<open>t_hi\<close>; a
  run that never leaves the loop is the value \<open>None\<close>.
\<close>

partial_function (option) bisect :: "matrix \<Rightarrow> real \<Rightarrow> real \<Rightarrow> real \<Rightarrow> real \<Rightarrow> real option" where
  "bisect x lambd tol t_lo t_hi =
     (let t = 0.5 * (t_lo + t_hi);
          res = residual x lambd t;
          t_lo' = (if res > 0 then t else t_lo);
          t_hi' = (if res > 0 then t_hi else t);
          converge = (\<bar>res\<bar> < tol * lambd)
      in if converge then Some t else bisect x lambd tol t_lo' t_hi')"

definition get_root :: "matrix \<Rightarrow> real \<Rightarrow> real \<Rightarrow> (error + real) option" where
  "get_root x lambd tol =
     (case np_max (np_abs x) of
        Inl e \<Rightarrow> Some (Inl e)
      | Inr t_hi \<Rightarrow> map_option Inr (bisect x lambd tol 0.0 t_hi))"

text \<open>
  The same loop with a budget of body executions, used to count the halvings: it gives
  \<open>None\<close> when the loop has not left after \<open>n\<close> runs of its body.
\<close>

fun bisect_within :: "nat \<Rightarrow> matrix \<Rightarrow> real \<Rightarrow> real \<Rightarrow> real \<Rightarrow> real \<Rightarrow> real option" where
  "bisect_within 0 x lambd tol t_lo t_hi = None"
| "bisect_within (Suc n) x lambd tol t_lo t_hi =
     (let t = 0.5 * (t_lo + t_hi);
          res = residual x lambd t;
          t_lo' = (if res > 0 then t else t_lo);
          t_hi' = (if res > 0 then t_hi else t);
          converge = (\<bar>res\<bar> < tol * lambd)
      in if converge then Some t else bisect_within n x lambd tol t_lo' t_hi')"

definition get_root_within :: "nat \<Rightarrow> matrix \<Rightarrow> real \<Rightarrow> real \<Rightarrow> (error + real) option" where
  "get_root_within n x lambd tol =
     (case np_max (np_abs x) of
        Inl e \<Rightarrow> Some (Inl e)
      | Inr t_hi \<Rightarrow> map_option Inr (bisect_within n x lambd tol 0.0 t_hi))"


section \<open>The proximal operator \<open>prox_max_norm\<close>\<close>

text \<open>The default \<open>tol=1.0e-10\<close> of \<open>get_root\<close>, which \<open>prox_max_norm\<close> relies on.\<close>

definition default_tol :: real where
  "default_tol = 1 / 10 ^ 10"

text \<open>
  \<open>prox_max_norm_with\<close> is the body of \<open>prox_max_norm\<close> with the root finder it calls as a
  parameter, so that a statement can say that a branch does not call it.
  \<open>np.zeros(x.shape)\<close> is \<open>np_zeros_like x\<close>.
\<close>

definition prox_max_norm_with ::
  "(matrix \<Rightarrow> real \<Rightarrow> real \<Rightarrow> (error + real) option) \<Rightarrow> matrix \<Rightarrow> real \<Rightarrow> (error + matrix) option" where
  "prox_max_norm_with root_finder x lambd =
     (let l1_norm = np_sum (np_abs x)
      in if l1_norm \<le> lambd then Some (Inr (np_zeros_like x))
         else (case root_finder x lambd default_tol of
                 None \<Rightarrow> None
               | Some (Inl e) \<Rightarrow> Some (Inl e)
               | Some (Inr alpha) \<Rightarrow>
                   Some (Inr (np_sub x (np_mul (np_sign x)
                     (np_maximum_scalar (np_sub_scalar (np_abs x) alpha) 0))))))"

definition prox_max_norm :: "matrix \<Rightarrow> real \<Rightarrow> (error + matrix) option" where
  "prox_max_norm = prox_max_norm_with get_root"

section \<open>The rank projection \<open>proj_rank\<close>\<close>

text \<open>
  The linear algebra routines of numpy are not part of the notebook; they are parameters
  of the model. \<open>svd\<close> stands for \<open>np.linalg.svd(A, full_matrices=False)\<close> and returns the
  triple \<open>U, S, V\<close> or raises, \<open>matrix_rank\<close> for \<open>np.linalg.matrix_rank\<close> and
  \<open>norm_nuc\<close> for \<open>np.linalg.norm(X, ord='nuc')\<close>.
\<close>

record linalg =
  svd :: "matrix \<Rightarrow> error + (matrix \<times> real list \<times> matrix)"
  matrix_rank :: "matrix \<Rightarrow> error + nat"
  norm_nuc :: "matrix \<Rightarrow> error + real"

text \<open>
  \<open>S[r:] = 0\<close> with Python's slice semantics: a negative \<open>r\<close> counts from the end, and
  the start is clipped to the length.
\<close>

definition slice_start :: "int \<Rightarrow> nat \<Rightarrow> nat" where
  "slice_start r n = (if r < 0 then nat (max (int n + r) 0) else min (nat r) n)"

definition zero_from :: "int \<Rightarrow> real list \<Rightarrow> real list" where
  "zero_from r S = (let s = slice_start r (length S) in take s S @ replicate (length S - s) 0)"

text \<open>\<open>U * S\<close> broadcasts the vector \<open>S\<close> along the rows of \<open>U\<close>.\<close>

definition col_scale :: "matrix \<Rightarrow> real list \<Rightarrow> matrix" where
  "col_scale U S = map (\<lambda>row. map2 (*) row S) U"

definition ncols :: "matrix \<Rightarrow> nat" where
  "ncols B = (case B of [] \<Rightarrow> 0 | row # _ \<Rightarrow> length row)"

definition matmul :: "matrix \<Rightarrow> matrix \<Rightarrow> matrix" where
  "matmul A B = map (\<lambda>row. map (\<lambda>j. \<Sum>(a, brow)\<leftarrow>zip row B. a * brow ! j) [0..<ncols B]) A"

text \<open>
  The shapes that numpy checks when it multiplies: every row of \<open>U\<close> as long as \<open>S\<close>, and
  \<open>V\<close> a rectangular array with as many rows. With other shapes the model raises
  ValueError (broadcasting between arrays of different shapes is not modelled).
\<close>

definition proj_rank :: "linalg \<Rightarrow> matrix \<Rightarrow> int \<Rightarrow> error + matrix" where
  "proj_rank la A r =
     (case svd la A of
        Inl e \<Rightarrow> Inl e
      | Inr (U, S, V) \<Rightarrow>
          (let S' = zero_from r S
           in if (\<forall>row\<in>set U. length row = length S') \<and> length V = length S'
                 \<and> (\<forall>row\<in>set V. length row = ncols V)
              then Inr (matmul (col_scale U S') V)
              else Inl ValueError))"

section \<open>The fixed-point step \<open>T\<close>\<close>

text \<open>
  \<open>T(Z, lambd, r, ord)\<close> reads the target \<open>D\<close> from the module's global scope, not from
  its arguments; the model takes it as the parameter \<open>D\<close>. The argument \<open>ord\<close> is not
  used by the body and is left out. The sums and differences are taken entry by entry on
  arrays of one shape; with other shapes the model raises ValueError, as in \<open>proj_rank\<close>.
\<close>

definition T :: "linalg \<Rightarrow> matrix \<Rightarrow> matrix \<Rightarrow> real \<Rightarrow> int \<Rightarrow> (error + matrix \<times> matrix) option" where
  "T la D Z lambd r =
     (case proj_rank la Z r of
        Inl e \<Rightarrow> Some (Inl e)
      | Inr X \<Rightarrow>
          if \<not> (same_shape X Z \<and> same_shape D Z) then Some (Inl ValueError)
          else (case prox_max_norm (np_sub (np_sub (np_scale 2 X) Z) D) lambd of
                  None \<Rightarrow> None
                | Some (Inl e) \<Rightarrow> Some (Inl e)
                | Some (Inr P) \<Rightarrow> Some (Inr (X, np_sub (np_add (np_add Z P) D) X))))"

section \<open>The driver \<open>compute_low_rank_est\<close>\<close>

text \<open>
  The two error ratios are the only divisions of the notebook. numpy divides float64
  scalars by IEEE rules: a zero divisor gives \<open>nan\<close> or an infinity and a warning, not an
  exception. The entries of the four diagnostic arrays are therefore values of \<open>npfloat\<close>.
\<close>

datatype npfloat = Finite real | PosInf | NegInf | NaN

definition np_divide :: "real \<Rightarrow> real \<Rightarrow> npfloat" where
  "np_divide a b =
     (if b \<noteq> 0 then Finite (a / b)
      else if a = 0 then NaN
      else if 0 < a then PosInf else NegInf)"

fun is_finite :: "npfloat \<Rightarrow> bool" where
  "is_finite (Finite v) = True"
| "is_finite PosInf = False"
| "is_finite NegInf = False"
| "is_finite NaN = False"

definition norm_fro :: "matrix \<Rightarrow> real" where
  "norm_fro x = sqrt (\<Sum>v\<leftarrow>concat x. v\<^sup>2)"

text \<open>
  The state of the \<open>for\<close> loop: \<open>Z\<close>, the variable \<open>X\<close> (unbound before the first pass) and
  the arrays \<open>err_max\<close>, \<open>err_fro\<close>, \<open>rank\<close>, \<open>norm\<close> (here \<open>nrm\<close>).
\<close>

type_synonym loop_state =
  "matrix \<times> matrix option \<times> npfloat list \<times> npfloat list \<times> npfloat list \<times> npfloat list"

text \<open>
  One pass of the loop body for index \<open>k\<close>. The copy \<open>Z_p\<close> and the progress line printed
  when \<open>k % 10 == 0\<close> do not change the state and are left out.
\<close>

definition loop_body ::
  "linalg \<Rightarrow> matrix \<Rightarrow> matrix \<Rightarrow> int \<Rightarrow> real \<Rightarrow> nat \<Rightarrow> loop_state \<Rightarrow> (error + loop_state) option" where
  "loop_body la D_glob D r lambd k st =
     (case st of (Z, X_old, err_max, err_fro, rank, nrm) \<Rightarrow>
        (case T la D_glob Z lambd r of
           None \<Rightarrow> None
         | Some (Inl e) \<Rightarrow> Some (Inl e)
         | Some (Inr (X, Z')) \<Rightarrow>
             if \<not> same_shape X D then Some (Inl ValueError)
             else (case np_max (np_abs (np_sub X D)) of
                     Inl e \<Rightarrow> Some (Inl e)
                   | Inr num \<Rightarrow>
                (case np_max (np_abs D) of
                     Inl e \<Rightarrow> Some (Inl e)
                   | Inr den \<Rightarrow>
                (let err_max' = err_max[k := np_divide num den];
                     err_fro' = err_fro[k := np_divide (norm_fro (np_sub X D)) (norm_fro D)]
                 in (case matrix_rank la X of
                       Inl e \<Rightarrow> Some (Inl e)
                     | Inr q \<Rightarrow>
                    (case norm_nuc la X of
                       Inl e \<Rightarrow> Some (Inl e)
                     | Inr v \<Rightarrow>
                         Some (Inr (Z', Some X, err_max', err_fro',
                                    rank[k := Finite (real q)], nrm[k := Finite v])))))))))"

fun for_loop ::
  "linalg \<Rightarrow> matrix \<Rightarrow> matrix \<Rightarrow> int \<Rightarrow> real \<Rightarrow> nat list \<Rightarrow> loop_state \<Rightarrow> (error + loop_state) option" where
  "for_loop la D_glob D r lambd [] st = Some (Inr st)"
| "for_loop la D_glob D r lambd (k # ks) st =
     (case loop_body la D_glob D r lambd k st of
        None \<Rightarrow> None
      | Some (Inl e) \<Rightarrow> Some (Inl e)
      | Some (Inr st') \<Rightarrow> for_loop la D_glob D r lambd ks st')"

text \<open>
  \<open>compute_low_rank_est(D, r, lambd, ord, iters)\<close>. \<open>D_glob\<close> is the module's global \<open>D\<close>
  that \<open>T\<close> reads; the notebook calls the driver with that same array. \<open>np.zeros(iters)\<close>
  raises ValueError for a negative \<open>iters\<close>, and \<open>return X\<close> raises UnboundLocalError when
  the loop has not run.
\<close>

definition compute_low_rank_est ::
  "linalg \<Rightarrow> matrix \<Rightarrow> matrix \<Rightarrow> int \<Rightarrow> real \<Rightarrow> int
     \<Rightarrow> (error + matrix \<times> npfloat list \<times> npfloat list \<times> npfloat list \<times> npfloat list) option" where
  "compute_low_rank_est la D_glob D r lambd iters =
     (if iters < 0 then Some (Inl ValueError)
      else (let zeros = replicate (nat iters) (Finite 0)
            in (case for_loop la D_glob D r lambd [0..<nat iters]
                       (D, None, zeros, zeros, zeros, zeros) of
                  None \<Rightarrow> None
                | Some (Inl e) \<Rightarrow> Some (Inl e)
                | Some (Inr (Z, X_last, err_max, err_fro, rank, nrm)) \<Rightarrow>
                    (case X_last of
                       None \<Rightarrow> Some (Inl UnboundLocalError)
                     | Some X \<Rightarrow> Some (Inr (X, err_max, err_fro, rank, nrm))))))"

section \<open>Auxiliary notions for the statements\<close>

text \<open>The sum of the entries of a vector after soft-thresholding by \<open>t\<close>.\<close>

definition shrink_sum :: "real list \<Rightarrow> real \<Rightarrow> real" where
  "shrink_sum xs t = (\<Sum>v\<leftarrow>xs. max (\<bar>v\<bar> - t) 0)"

text \<open>An array with \<open>m\<close> rows and \<open>n\<close> columns.\<close>

definition is_mat :: "nat \<Rightarrow> nat \<Rightarrow> matrix \<Rightarrow> bool" where
  "is_mat m n A \<longleftrightarrow> length A = m \<and> (\<forall>row\<in>set A. length row = n)"

text \<open>
  The shapes of the reduced decomposition of an \<open>m\<close> by \<open>n\<close> array, as numpy documents
  them for \<open>full_matrices=False\<close>: with \<open>k = min(m, n)\<close>, \<open>U\<close> is \<open>m\<close> by \<open>k\<close>, \<open>S\<close> has
  \<open>k\<close> entries and \<open>V\<close> is \<open>k\<close> by \<open>n\<close>.
\<close>

definition svd_shapes :: "nat \<Rightarrow> nat \<Rightarrow> matrix \<Rightarrow> real list \<Rightarrow> matrix \<Rightarrow> bool" where
  "svd_shapes m n U S V \<longleftrightarrow>
     is_mat m (min m n) U \<and> length S = min m n \<and> is_mat (min m n) n V"

text \<open>
  A matrix has rank at most \<open>q\<close> when it is a sum of \<open>q\<close> outer products
  \<open>b\<^sub>l c\<^sub>l\<^sup>T\<close>: entry \<open>(i, j)\<close> is \<open>\<Sum>l<q. B i l * C l j\<close>.
\<close>

definition rank_at_most :: "nat \<Rightarrow> matrix \<Rightarrow> bool" where
  "rank_at_most q X \<longleftrightarrow>
     (\<exists>B C. \<forall>i<length X. \<forall>j<length (X ! i). X ! i ! j = (\<Sum>l<q. B i l * C l j))"

text \<open>
  The linear algebra routines return on every \<open>m\<close> by \<open>n\<close> array, and the decomposition
  has the documented shapes.
\<close>

definition linalg_total :: "nat \<Rightarrow> nat \<Rightarrow> linalg \<Rightarrow> bool" where
  "linalg_total m n la \<longleftrightarrow>
     (\<forall>M. is_mat m n M \<longrightarrow>
        (\<exists>U S V. svd la M = Inr (U, S, V) \<and> svd_shapes m n U S V)
        \<and> (\<exists>q. matrix_rank la M = Inr q) \<and> (\<exists>v. norm_nuc la M = Inr v))"

text \<open>
  The splitting variable after \<open>k\<close> fixed-point steps from \<open>Z = D\<close>, as the specification
  describes the iteration; the driver is compared with it.
\<close>

fun Z_seq :: "linalg \<Rightarrow> matrix \<Rightarrow> matrix \<Rightarrow> real \<Rightarrow> int \<Rightarrow> nat \<Rightarrow> (error + matrix) option" where
  "Z_seq la D_glob D lambd r 0 = Some (Inr D)"
| "Z_seq la D_glob D lambd r (Suc k) =
     (case Z_seq la D_glob D lambd r k of
        None \<Rightarrow> None
      | Some (Inl e) \<Rightarrow> Some (Inl e)
      | Some (Inr Z) \<Rightarrow>
          (case T la D_glob Z lambd r of
             None \<Rightarrow> None
           | Some (Inl e) \<Rightarrow> Some (Inl e)
           | Some (Inr (X, Z')) \<Rightarrow> Some (Inr Z')))"

text \<open>
  Two concrete instances of the linear algebra routines, for running the model:
  \<open>la_1x1\<close> is the decomposition of a one by one array \<open>[[a]]\<close>, namely
  \<open>[[1]], [|a|], [[\<plusminus>1]]\<close>, and \<open>la_diag2\<close> that of a two by two diagonal array with
  entries \<open>a \<ge> b \<ge> 0\<close>, namely the identity, \<open>[a, b]\<close> and the identity.
\<close>

definition la_1x1 :: linalg where
  "la_1x1 =
     \<lparr> svd = (\<lambda>A. case A of
                 [[a]] \<Rightarrow> Inr ([[1]], [\<bar>a\<bar>], [[if a < 0 then - 1 else 1]])
               | _ \<Rightarrow> Inl LinAlgError),
       matrix_rank = (\<lambda>A. case A of
                 [[a]] \<Rightarrow> Inr (if a = 0 then 0 else 1)
               | _ \<Rightarrow> Inl LinAlgError),
       norm_nuc = (\<lambda>A. case A of
                 [[a]] \<Rightarrow> Inr \<bar>a\<bar>
               | _ \<Rightarrow> Inl LinAlgError) \<rparr>"

definition la_diag2 :: linalg where
  "la_diag2 =
     \<lparr> svd = (\<lambda>A. Inr ([[1, 0], [0, 1]], [A ! 0 ! 0, A ! 1 ! 1], [[1, 0], [0, 1]])),
       matrix_rank = (\<lambda>A. Inr (length (filter (\<lambda>v. v \<noteq> 0) [A ! 0 ! 0, A ! 1 ! 1]))),
       norm_nuc = (\<lambda>A. Inr (A ! 0 ! 0 + A ! 1 ! 1)) \<rparr>"

text \<open>The iterate \<open>X\<close> produced by step \<open>k\<close> (counted from \<open>0\<close>), when that step returns.\<close>

definition X_seq :: "linalg \<Rightarrow> matrix \<Rightarrow> matrix \<Rightarrow> real \<Rightarrow> int \<Rightarrow> nat \<Rightarrow> matrix option" where
  "X_seq la D_glob D lambd r k =
     (case Z_seq la D_glob D lambd r k of
        Some (Inr Z) \<Rightarrow>
          (case T la D_glob Z lambd r of Some (Inr (X, Z')) \<Rightarrow> Some X | _ \<Rightarrow> None)
      | _ \<Rightarrow> None)"

text \<open>
  The four diagnostics of an iterate \<open>X\<close> against the target \<open>D\<close>: relative max error,
  relative Frobenius error, rank and nuclear norm; \<open>None\<close> when one of them raises.
\<close>

definition diagnostics ::
  "linalg \<Rightarrow> matrix \<Rightarrow> matrix \<Rightarrow> (npfloat \<times> npfloat \<times> npfloat \<times> npfloat) option" where
  "diagnostics la D X =
     (case (np_max (np_abs (np_sub X D)), np_max (np_abs D), matrix_rank la X, norm_nuc la X) of
        (Inr num, Inr den, Inr q, Inr v) \<Rightarrow>
          Some (np_divide num den, np_divide (norm_fro (np_sub X D)) (norm_fro D),
                Finite (real q), Finite v)
      | _ \<Rightarrow> None)"




text \<open>
  What numpy documents of the reduced singular value decomposition \<open>U, S, V\<close> of an \<open>m\<close> by
  \<open>n\<close> array \<open>A\<close>: the shapes above, orthonormal columns of \<open>U\<close>, orthonormal rows of \<open>V\<close>,
  singular values that are non-negative and in descending order, and \<open>A = (U * S) @ V\<close>.
\<close>

definition svd_spec :: "nat \<Rightarrow> nat \<Rightarrow> matrix \<Rightarrow> matrix \<Rightarrow> real list \<Rightarrow> matrix \<Rightarrow> bool" where
  "svd_spec m n A U S V \<longleftrightarrow>
     svd_shapes m n U S V
     \<and> (\<forall>a<min m n. \<forall>b<min m n. (\<Sum>i<m. U ! i ! a * U ! i ! b) = (if a = b then 1 else 0))
     \<and> (\<forall>a<min m n. \<forall>b<min m n. (\<Sum>j<n. V ! a ! j * V ! b ! j) = (if a = b then 1 else 0))
     \<and> (\<forall>a<min m n. 0 \<le> S ! a)
     \<and> (\<forall>a<min m n. \<forall>b<min m n. a \<le> b \<longrightarrow> S ! b \<le> S ! a)
     \<and> (\<forall>i<m. \<forall>j<n. A ! i ! j = (\<Sum>l<min m n. U ! i ! l * S ! l * V ! l ! j))"

section \<open>The bisection of \<open>get_root\<close>\<close>

lemma residual_flat: "residual x lambd t = shrink_sum (concat x) t - lambd"
  by (simp add: residual_def np_sum_def np_maximum_scalar_def np_sub_scalar_def np_abs_def
      shrink_sum_def map_concat comp_def)

lemma shrink_sum_antimono: "t \<le> t' \<Longrightarrow> shrink_sum xs t' \<le> shrink_sum xs t"
  unfolding shrink_sum_def by (rule sum_list_mono) auto

lemma shrink_sum_lipschitz:
  "t \<le> t' \<Longrightarrow> shrink_sum xs t - shrink_sum xs t' \<le> real (length xs) * (t' - t)"
proof (induction xs)
  case Nil
  then show ?case by (simp add: shrink_sum_def)
next
  case (Cons v xs)
  have "max (\<bar>v\<bar> - t) 0 - max (\<bar>v\<bar> - t') 0 \<le> t' - t"
    using Cons.prems by auto
  with Cons show ?case
    by (simp add: shrink_sum_def algebra_simps)
qed


lemma shrink_sum_0: "shrink_sum xs 0 = (\<Sum>v\<leftarrow>xs. \<bar>v\<bar>)"
  unfolding shrink_sum_def by (rule arg_cong[where f=sum_list]) auto

lemma shrink_sum_top: "(\<And>v. v \<in> set xs \<Longrightarrow> \<bar>v\<bar> \<le> t) \<Longrightarrow> shrink_sum xs t = 0"
  unfolding shrink_sum_def by (induction xs) auto

lemma bisect_unfold:
  "bisect x lambd tol lo hi =
     (let t = (lo + hi) / 2; res = residual x lambd t
      in if \<bar>res\<bar> < tol * lambd then Some t
         else if res > 0 then bisect x lambd tol t hi else bisect x lambd tol lo t)"
  by (subst bisect.simps) (simp add: Let_def)

lemma bisect_within_unfold:
  "bisect_within (Suc n) x lambd tol lo hi =
     (let t = (lo + hi) / 2; res = residual x lambd t
      in if \<bar>res\<bar> < tol * lambd then Some t
         else if res > 0 then bisect_within n x lambd tol t hi
         else bisect_within n x lambd tol lo t)"
  by (simp add: Let_def)

lemma bisect_within_Some:
  "bisect_within n x lambd tol lo hi = Some t \<Longrightarrow> bisect x lambd tol lo hi = Some t"
proof (induction n arbitrary: lo hi)
  case 0
  then show ?case by simp
next
  case (Suc n)
  from Suc.prems show ?case
    by (subst bisect_unfold, unfold bisect_within_unfold Let_def)
       (auto split: if_splits intro: Suc.IH)
qed



lemma residual_mid:
  assumes "0 < residual x lambd lo" "residual x lambd hi \<le> 0" "lo \<le> hi"
  shows "\<bar>residual x lambd ((lo + hi) / 2)\<bar> \<le> real (length (concat x)) * (hi - lo) / 2"
proof -
  let ?t = "(lo + hi) / 2"
  have mid: "lo \<le> ?t" "?t \<le> hi" using assms by auto
  have up: "residual x lambd ?t \<le> residual x lambd lo"
    using shrink_sum_antimono[OF mid(1)] by (simp add: residual_flat)
  have dn: "residual x lambd hi \<le> residual x lambd ?t"
    using shrink_sum_antimono[OF mid(2)] by (simp add: residual_flat)
  have l1: "residual x lambd lo - residual x lambd ?t \<le> real (length (concat x)) * (?t - lo)"
    using shrink_sum_lipschitz[OF mid(1), of "concat x"] by (simp add: residual_flat)
  have l2: "residual x lambd ?t - residual x lambd hi \<le> real (length (concat x)) * (hi - ?t)"
    using shrink_sum_lipschitz[OF mid(2), of "concat x"] by (simp add: residual_flat)
  have e1: "real (length (concat x)) * (?t - lo) = real (length (concat x)) * (hi - lo) / 2"
    by (simp add: field_simps)
  have e2: "real (length (concat x)) * (hi - ?t) = real (length (concat x)) * (hi - lo) / 2"
    by (simp add: field_simps)
  show ?thesis using up dn l1 l2 assms(1,2) unfolding e1 e2 by linarith
qed

lemma bisect_within_converges:
  assumes "0 < residual x lambd lo" "residual x lambd hi \<le> 0" "lo \<le> hi"
    and "real (length (concat x)) * (hi - lo) < tol * lambd * 2 ^ Suc k"
  shows "\<exists>t. bisect_within (Suc k) x lambd tol lo hi = Some t \<and> lo \<le> t \<and> t \<le> hi
           \<and> \<bar>residual x lambd t\<bar> < tol * lambd"
  using assms
proof (induction k arbitrary: lo hi)
  case 0
  have "\<bar>residual x lambd ((lo + hi) / 2)\<bar> < tol * lambd"
    using residual_mid[OF 0(1-3)] 0(4) by simp
  moreover have "lo \<le> (lo + hi) / 2" "(lo + hi) / 2 \<le> hi" using 0(3) by auto
  moreover from calculation have "bisect_within (Suc 0) x lambd tol lo hi = Some ((lo + hi) / 2)"
    by (subst bisect_within_unfold) (simp add: Let_def)
  ultimately show ?case by blast
next
  case (Suc k)
  let ?t = "(lo + hi) / 2"
  let ?n = "real (length (concat x))"
  have mid: "lo \<le> ?t" "?t \<le> hi" using Suc.prems by auto
  show ?case
  proof (cases "\<bar>residual x lambd ?t\<bar> < tol * lambd")
    case True
    then have "bisect_within (Suc (Suc k)) x lambd tol lo hi = Some ?t"
      by (subst bisect_within_unfold) (simp add: Let_def)
    with True mid show ?thesis by blast
  next
    case False
    have w1: "?n * (hi - ?t) < tol * lambd * 2 ^ Suc k"
      using Suc.prems(4) by (simp add: field_simps)
    have w2: "?n * (?t - lo) < tol * lambd * 2 ^ Suc k"
      using Suc.prems(4) by (simp add: field_simps)
    show ?thesis
    proof (cases "0 < residual x lambd ?t")
      case True
      from Suc.IH[OF True Suc.prems(2) mid(2) w1]
      obtain t where "bisect_within (Suc k) x lambd tol ?t hi = Some t" "?t \<le> t" "t \<le> hi"
        "\<bar>residual x lambd t\<bar> < tol * lambd" by blast
      moreover from this True False have "bisect_within (Suc (Suc k)) x lambd tol lo hi = Some t"
        by (subst bisect_within_unfold) (simp add: Let_def)
      ultimately show ?thesis using mid by (intro exI[of _ t]) simp
    next
      case neg: False
      then have "residual x lambd ?t \<le> 0" by simp
      from Suc.IH[OF Suc.prems(1) this mid(1) w2]
      obtain t where "bisect_within (Suc k) x lambd tol lo ?t = Some t" "lo \<le> t" "t \<le> ?t"
        "\<bar>residual x lambd t\<bar> < tol * lambd" by blast
      moreover from this neg False have "bisect_within (Suc (Suc k)) x lambd tol lo hi = Some t"
        by (subst bisect_within_unfold) (simp add: Let_def)
      ultimately show ?thesis using mid by (intro exI[of _ t]) simp
    qed
  qed
qed


lemma concat_np_abs: "concat (np_abs x) = map abs (concat x)"
  by (simp add: np_abs_def map_concat)

lemma np_max_abs_nonempty:
  assumes "0 < np_sum (np_abs x)"
  shows "concat x \<noteq> []" and "np_max (np_abs x) = Inr (Max (set (map abs (concat x))))"
proof -
  show ne: "concat x \<noteq> []"
  proof
    assume e: "concat x = []"
    have "np_sum (np_abs x) = 0" unfolding np_sum_def concat_np_abs e by simp
    with assms show False by simp
  qed
  then show "np_max (np_abs x) = Inr (Max (set (map abs (concat x))))"
    unfolding np_max_def concat_np_abs by simp
qed

lemma halvings_exist:
  assumes "0 < lambd" "0 < tol"
  shows "\<exists>N. (c::real) < tol * lambd * 2 ^ Suc N"
proof -
  have pos: "0 < tol * lambd" using assms by simp
  obtain N where "c / (tol * lambd) < 2 ^ N"
    using real_arch_pow[of 2 "c / (tol * lambd)"] by auto
  also have "\<dots> \<le> (2::real) ^ Suc N" by simp
  finally have "c < 2 ^ Suc N * (tol * lambd)"
    using pos by (simp add: pos_divide_less_eq)
  then show ?thesis by (auto simp: mult.commute)
qed

lemma get_root_within_root:
  assumes "0 < lambd" "0 < tol" "lambd < np_sum (np_abs x)"
    and "np_max (np_abs x) = Inr M"
    and "real (length (concat x)) * M < tol * lambd * 2 ^ Suc N"
  shows "\<exists>\<alpha>. get_root_within (Suc N) x lambd tol = Some (Inr \<alpha>)
           \<and> get_root x lambd tol = Some (Inr \<alpha>)
           \<and> \<bar>residual x lambd \<alpha>\<bar> < tol * lambd \<and> 0 \<le> \<alpha> \<and> \<alpha> \<le> M"
proof -
  have l1: "0 < np_sum (np_abs x)" using assms by simp
  note ne = np_max_abs_nonempty[OF l1]
  have M: "M = Max (set (map abs (concat x)))" using ne(2) assms(4) by simp
  have "\<And>v. v \<in> set (concat x) \<Longrightarrow> \<bar>v\<bar> \<le> M"
    unfolding M by (rule Max_ge) auto
  then have "shrink_sum (concat x) M = 0"
    by (rule shrink_sum_top)
  then have top: "residual x lambd M \<le> 0"
    using assms(1) by (simp add: residual_flat)
  have bot: "0 < residual x lambd 0"
    using assms(3) by (simp add: residual_flat shrink_sum_0 np_sum_def concat_np_abs)
  have "M \<in> set (map abs (concat x))"
    unfolding M using ne(1) by (intro Max_in) auto
  then have M0: "0 \<le> M" by auto
  have "real (length (concat x)) * (M - 0) < tol * lambd * 2 ^ Suc N"
    using assms(5) by simp
  from bisect_within_converges[OF bot top M0 this]
  obtain t where t: "bisect_within (Suc N) x lambd tol 0 M = Some t" "0 \<le> t" "t \<le> M"
    "\<bar>residual x lambd t\<bar> < tol * lambd" by blast
  from bisect_within_Some[OF t(1)] have "bisect x lambd tol 0 M = Some t" .
  with t assms(4) show ?thesis
    by (intro exI[of _ t]) (simp add: get_root_def get_root_within_def)
qed

lemma get_root_returns:
  assumes "0 < lambd" and "0 < tol" and "lambd < np_sum (np_abs x)"
  shows "\<exists>\<alpha> M. get_root x lambd tol = Some (Inr \<alpha>) \<and> np_max (np_abs x) = Inr M
           \<and> \<bar>np_sum (np_maximum_scalar (np_sub_scalar (np_abs x) \<alpha>) 0) - lambd\<bar> < tol * lambd
           \<and> 0 \<le> \<alpha> \<and> \<alpha> \<le> M"
proof -
  have l1: "0 < np_sum (np_abs x)" using assms by simp
  from np_max_abs_nonempty(2)[OF l1] obtain M where M: "np_max (np_abs x) = Inr M" by blast
  obtain N where N: "real (length (concat x)) * M < tol * lambd * 2 ^ Suc N"
    using halvings_exist[OF assms(1,2)] by blast
  from get_root_within_root[OF assms M N] M show ?thesis
    unfolding residual_def by blast
qed





section \<open>The proximal operator\<close>

lemma same_shape_refl: "same_shape x x" by (simp add: same_shape_def)

lemma same_shape_zeros: "same_shape (np_zeros_like x) x"
  by (simp add: same_shape_def np_zeros_like_def comp_def)

lemma concat_zeros: "v \<in> set (concat (np_zeros_like x)) \<Longrightarrow> v = 0"
  by (auto simp: np_zeros_like_def)

text \<open>
  Claim C8. When \<open>\<Sum>|x_i| \<le> lambd\<close>, \<open>prox_max_norm(x, lambd)\<close> returns the all-zero array of
  the shape of \<open>x\<close>, whatever the root finder would do: the branch does not call it.
\<close>

theorem prox_max_norm_small_input:
  assumes "np_sum (np_abs x) \<le> lambd"
  shows "prox_max_norm x lambd = Some (Inr (np_zeros_like x))
         \<and> (\<forall>root_finder. prox_max_norm_with root_finder x lambd = Some (Inr (np_zeros_like x)))
         \<and> same_shape (np_zeros_like x) x
         \<and> (\<forall>v\<in>set (concat (np_zeros_like x)). v = 0)"
  using assms concat_zeros[of _ x]
  by (simp add: prox_max_norm_def prox_max_norm_with_def same_shape_zeros)

theorem prox_max_norm_small_input_witness:
  "np_sum (np_abs [[1/2, -1/4], [0, 1/8]]) \<le> 1
   \<and> prox_max_norm [[1/2, -1/4], [0, 1/8]] 1 = Some (Inr [[0, 0], [0, 0]])
   \<and> (\<forall>root_finder. prox_max_norm_with root_finder [[1/2, -1/4], [0, 1/8]] 1
          = Some (Inr [[0, 0], [0, 0]]))"
proof -
  have h: "np_sum (np_abs [[1/2, -1/4], [0, 1/8]]) \<le> 1"
    by (simp add: np_sum_def np_abs_def)
  have z: "np_zeros_like [[1/2, -1/4], [0, 1/8]] = [[0, 0], [0, 0]]"
    by (simp add: np_zeros_like_def)
  from prox_max_norm_small_input[OF h] h show ?thesis
    unfolding z by blast
qed

lemma map2_same: "map2 f (map g xs) (map h xs) = map (\<lambda>v. f (g v) (h v)) xs"
  by (induction xs) auto

lemma map2_same_left: "map2 f xs (map h xs) = map (\<lambda>v. f v (h v)) xs"
  using map2_same[of f id xs h] by simp

lemma ew_same: "map2 (map2 f) (map (map g) x) (map (map h) x) = map (map (\<lambda>v. f (g v) (h v))) x"
  by (induction x) (auto simp: map2_same)

lemma ew_same_left: "map2 (map2 f) x (map (map h) x) = map (map (\<lambda>v. f v (h v))) x"
  using ew_same[of f id x h] by simp

lemma prox_elementwise:
  "np_sub x (np_mul (np_sign x) (np_maximum_scalar (np_sub_scalar (np_abs x) a) 0))
   = map (map (\<lambda>v. v - sgn v * max (\<bar>v\<bar> - a) 0)) x"
  by (simp add: np_sub_def np_mul_def np_sign_def np_maximum_scalar_def np_sub_scalar_def
      np_abs_def ew_same ew_same_left comp_def)

lemma default_tol_pos: "0 < default_tol" by (simp add: default_tol_def)

lemma prox_max_norm_total:
  assumes "0 < lambd"
  shows "\<exists>P. prox_max_norm x lambd = Some (Inr P) \<and> same_shape P x"
proof (cases "np_sum (np_abs x) \<le> lambd")
  case True
  then show ?thesis
    by (auto simp: prox_max_norm_def prox_max_norm_with_def same_shape_zeros)
next
  case False
  then have "lambd < np_sum (np_abs x)" by simp
  from get_root_returns[OF assms default_tol_pos this]
  obtain a where "get_root x lambd default_tol = Some (Inr a)" by blast
  with False show ?thesis
    by (simp add: prox_max_norm_def prox_max_norm_with_def prox_elementwise same_shape_def comp_def)
qed

lemma prox_eval:
  "get_root x lambd default_tol = Some (Inr a) \<Longrightarrow> \<not> np_sum (np_abs x) \<le> lambd \<Longrightarrow>
   prox_max_norm x lambd = Some (Inr (map (map (\<lambda>v. v - sgn v * max (\<bar>v\<bar> - a) 0)) x))"
  by (simp add: prox_max_norm_def prox_max_norm_with_def prox_elementwise)

section \<open>The proximal point of the max-norm\<close>





















section \<open>The rank projection\<close>

lemma slice_start_le: "slice_start r n \<le> n"
  by (auto simp: slice_start_def)

lemma length_zero_from: "length (zero_from r S) = length S"
  using slice_start_le[of r "length S"] by (simp add: zero_from_def Let_def)

lemma zero_from_nth:
  "i < length S \<Longrightarrow> zero_from r S ! i = (if i < slice_start r (length S) then S ! i else 0)"
  using slice_start_le[of r "length S"] by (auto simp: zero_from_def Let_def nth_append)

lemma zero_from_0: "zero_from 0 S = replicate (length S) 0"
  by (simp add: zero_from_def slice_start_def)

lemma is_mat_nth: "is_mat m n A \<Longrightarrow> i < m \<Longrightarrow> length (A ! i) = n"
  by (auto simp: is_mat_def)

lemma is_mat_length: "is_mat m n A \<Longrightarrow> length A = m"
  by (simp add: is_mat_def)

lemma ncols_is_mat: "is_mat k n B \<Longrightarrow> 0 < k \<Longrightarrow> ncols B = n"
  by (cases B) (auto simp: ncols_def is_mat_def)

lemma is_mat_rect: "is_mat k n B \<Longrightarrow> \<forall>row\<in>set B. length row = ncols B"
  by (cases B) (auto simp: ncols_def is_mat_def)

lemma dot_sum:
  assumes "length row = length B"
  shows "(\<Sum>(a, brow)\<leftarrow>zip row B. a * brow ! j) = (\<Sum>l<length B. row ! l * B ! l ! j)"
proof -
  have "(\<Sum>(a, brow)\<leftarrow>zip row B. a * brow ! j)
        = (\<Sum>l = 0..<length (zip row B). (case zip row B ! l of (a, brow) \<Rightarrow> a * brow ! j))"
    by (simp add: sum_list_sum_nth)
  also have "\<dots> = (\<Sum>l = 0..<length B. row ! l * B ! l ! j)"
    using assms by (intro sum.cong) auto
  finally show ?thesis by (simp add: lessThan_atLeast0)
qed

lemma matmul_length: "length (matmul A B) = length A"
  by (simp add: matmul_def)

lemma matmul_row_length: "i < length A \<Longrightarrow> length (matmul A B ! i) = ncols B"
  by (simp add: matmul_def)

lemma matmul_nth:
  assumes "i < length A" "j < ncols B" "length (A ! i) = length B"
  shows "matmul A B ! i ! j = (\<Sum>l<length B. A ! i ! l * B ! l ! j)"
  using assms by (simp add: matmul_def dot_sum)

lemma is_mat_matmul:
  assumes "is_mat m k A" "is_mat k n B" "0 < k \<or> n = 0 \<or> m = 0"
  shows "is_mat m n (matmul A B)"
proof -
  have "ncols B = n \<or> m = 0"
    using assms by (cases B) (auto simp: ncols_def is_mat_def)
  then show ?thesis
    using assms(1) by (auto simp: is_mat_def matmul_def)
qed

lemma col_scale_length: "length (col_scale U S) = length U"
  by (simp add: col_scale_def)

lemma col_scale_nth:
  "i < length U \<Longrightarrow> l < length (U ! i) \<Longrightarrow> l < length S \<Longrightarrow> col_scale U S ! i ! l = U ! i ! l * S ! l"
  by (simp add: col_scale_def)

lemma col_scale_row_length:
  "i < length U \<Longrightarrow> length (col_scale U S ! i) = min (length (U ! i)) (length S)"
  by (simp add: col_scale_def)

lemma is_mat_col_scale: "is_mat m k U \<Longrightarrow> length S = k \<Longrightarrow> is_mat m k (col_scale U S)"
  by (auto simp: is_mat_def col_scale_def)

lemma proj_rank_guard:
  assumes "svd la A = Inr (U, S, V)" "svd_shapes m n U S V"
  shows "proj_rank la A r = Inr (matmul (col_scale U (zero_from r S)) V)"
  using assms is_mat_rect[of "min m n" n V]
  by (simp add: proj_rank_def svd_shapes_def Let_def length_zero_from is_mat_def)

lemma proj_rank_is_mat:
  assumes "svd la A = Inr (U, S, V)" "svd_shapes m n U S V"
  shows "\<exists>X. proj_rank la A r = Inr X \<and> is_mat m n X"
proof -
  have "is_mat m (min m n) (col_scale U (zero_from r S))"
    using assms(2) by (simp add: svd_shapes_def is_mat_col_scale length_zero_from)
  moreover have "is_mat (min m n) n V" using assms(2) by (simp add: svd_shapes_def)
  moreover have "0 < min m n \<or> n = 0 \<or> m = 0" by auto
  ultimately have "is_mat m n (matmul (col_scale U (zero_from r S)) V)"
    by (rule is_mat_matmul)
  with proj_rank_guard[OF assms] show ?thesis by simp
qed

lemma proj_rank_nth:
  assumes "svd la A = Inr (U, S, V)" "svd_shapes m n U S V" "i < m" "j < n"
  shows "\<exists>X. proj_rank la A r = Inr X \<and>
           X ! i ! j = (\<Sum>l<min m n. U ! i ! l * zero_from r S ! l * V ! l ! j)"
proof -
  let ?k = "min m n"
  have U: "is_mat m ?k U" and S: "length S = ?k" and V: "is_mat ?k n V"
    using assms(2) by (simp_all add: svd_shapes_def)
  have k: "0 < ?k" using assms(3,4) by simp
  have "matmul (col_scale U (zero_from r S)) V ! i ! j
        = (\<Sum>l<length V. col_scale U (zero_from r S) ! i ! l * V ! l ! j)"
    using U V S k assms(3,4)
    by (intro matmul_nth)
       (simp_all add: col_scale_length is_mat_length ncols_is_mat col_scale_row_length
          is_mat_nth length_zero_from)
  also have "\<dots> = (\<Sum>l<?k. U ! i ! l * zero_from r S ! l * V ! l ! j)"
    using U V S assms(3)
    by (intro sum.cong) (simp_all add: is_mat_length col_scale_nth is_mat_nth length_zero_from)
  finally show ?thesis using proj_rank_guard[OF assms(1,2)] by simp
qed

lemma zeros_like_is_mat: "is_mat m n A \<Longrightarrow> np_zeros_like A = replicate m (replicate n 0)"
  by (auto simp: np_zeros_like_def is_mat_def intro!: nth_equalityI)

lemma mat_eqI:
  assumes "is_mat m n A" "is_mat m n B" "\<And>i j. i < m \<Longrightarrow> j < n \<Longrightarrow> A ! i ! j = B ! i ! j"
  shows "A = B"
proof (rule nth_equalityI)
  show "length A = length B" using assms(1,2) by (simp add: is_mat_def)
next
  fix i assume i: "i < length A"
  then have im: "i < m" using assms(1) by (simp add: is_mat_def)
  show "A ! i = B ! i"
    using assms im by (intro nth_equalityI) (simp_all add: is_mat_nth)
qed

lemma is_mat_zeros: "is_mat m n (replicate m (replicate n 0))"
  by (simp add: is_mat_def)

text \<open>
  Claim C10. When the decomposition returns (with the documented shapes),
  \<open>proj_rank(A, 0)\<close> is the all-zero array of the shape of \<open>A\<close>.
\<close>

theorem proj_rank_zero:
  assumes "is_mat m n A" and "svd la A = Inr (U, S, V)" and "svd_shapes m n U S V"
  shows "proj_rank la A 0 = Inr (np_zeros_like A)
         \<and> same_shape (np_zeros_like A) A \<and> (\<forall>v\<in>set (concat (np_zeros_like A)). v = 0)"
proof -
  from proj_rank_is_mat[OF assms(2,3), of 0]
  obtain X where X: "proj_rank la A 0 = Inr X" "is_mat m n X" by blast
  have "X = replicate m (replicate n 0)"
  proof (rule mat_eqI[OF X(2) is_mat_zeros])
    fix i j assume ij: "i < m" "j < n"
    from proj_rank_nth[OF assms(2,3) ij, of 0] X(1)
    have "X ! i ! j = (\<Sum>l<min m n. U ! i ! l * zero_from 0 S ! l * V ! l ! j)" by simp
    also have "\<dots> = 0"
      using assms(3) by (intro sum.neutral) (simp add: zero_from_0 svd_shapes_def)
    finally show "X ! i ! j = replicate m (replicate n 0) ! i ! j" using ij by simp
  qed
  with X(1) assms(1) have "proj_rank la A 0 = Inr (np_zeros_like A)"
    by (simp add: zeros_like_is_mat)
  moreover have "same_shape (np_zeros_like A) A" by (rule same_shape_zeros)
  moreover have "\<forall>v\<in>set (concat (np_zeros_like A)). v = 0"
    using concat_zeros[of _ A] by blast
  ultimately show ?thesis by blast
qed

lemma la_diag2_svd: "svd la_diag2 A = Inr ([[1, 0], [0, 1]], [A ! 0 ! 0, A ! 1 ! 1], [[1, 0], [0, 1]])"
  by (simp add: la_diag2_def)

lemma svd_shapes_diag2: "svd_shapes 2 2 [[1, 0], [0, 1]] [a, b] [[1, 0], [0, 1]]"
  by (simp add: svd_shapes_def is_mat_def)

theorem proj_rank_zero_witness:
  "is_mat 2 2 [[3, 0], [0, 1]]
   \<and> svd la_diag2 [[3, 0], [0, 1]] = Inr ([[1, 0], [0, 1]], [3, 1], [[1, 0], [0, 1]])
   \<and> svd_shapes 2 2 [[1, 0], [0, 1]] [3, 1] [[1, 0], [0, 1]]
   \<and> proj_rank la_diag2 [[3, 0], [0, 1]] 0 = Inr [[0, 0], [0, 0]]"
proof -
  have h: "is_mat 2 2 [[3, 0], [0, 1]]"
    "svd la_diag2 [[3, 0], [0, 1]] = Inr ([[1, 0], [0, 1]], [3, 1], [[1, 0], [0, 1]])"
    "svd_shapes 2 2 [[1, 0], [0, 1]] [3, 1] [[1, 0], [0, 1]]"
    by (simp_all add: la_diag2_svd svd_shapes_diag2 is_mat_def)
  have z: "np_zeros_like [[3, 0], [0, 1]] = [[0, 0], [0, 0]]"
    by (simp add: np_zeros_like_def)
  from proj_rank_zero[OF h] h show ?thesis unfolding z by blast
qed

lemma proj_rank_diag2_eval:
  "proj_rank la_diag2 [[3, 0], [0, 1]] 1 = Inr [[3, 0], [0, 0]]"
  by (simp add: proj_rank_def la_diag2_svd zero_from_def slice_start_def ncols_def matmul_def
      col_scale_def Let_def upt_rec)

lemma proj_rank_cases:
  assumes "proj_rank la A r = Inr X"
  obtains U S V where "svd la A = Inr (U, S, V)" "\<forall>row\<in>set U. length row = length S"
    "length V = length S" "\<forall>row\<in>set V. length row = ncols V"
    "X = matmul (col_scale U (zero_from r S)) V"
  using assms
  by (auto simp: proj_rank_def Let_def length_zero_from split: sum.splits if_splits prod.splits)

lemma proj_rank_rank:
  assumes "proj_rank la A r = Inr X" "0 \<le> r"
  shows "rank_at_most (nat r) X"
proof -
  from assms(1) obtain U S V where usv: "svd la A = Inr (U, S, V)"
    "\<forall>row\<in>set U. length row = length S" "length V = length S"
    "\<forall>row\<in>set V. length row = ncols V" "X = matmul (col_scale U (zero_from r S)) V"
    by (rule proj_rank_cases)
  let ?k = "length S"
  let ?s = "slice_start r ?k"
  let ?B = "\<lambda>i l. if l < ?s then U ! i ! l * S ! l else 0"
  let ?C = "\<lambda>l j. V ! l ! j"
  have sk: "?s \<le> ?k" by (rule slice_start_le)
  have sr: "?s \<le> nat r" using assms(2) by (simp add: slice_start_def)
  have "X ! i ! j = (\<Sum>l<nat r. ?B i l * ?C l j)" if i: "i < length X" and j: "j < length (X ! i)" for i j
  proof -
    have iU: "i < length U" using i by (simp add: usv(5) matmul_length col_scale_length)
    then have rowU: "length (U ! i) = ?k" using usv(2) by simp
    have jV: "j < ncols V"
      using j iU by (simp add: usv(5) matmul_row_length col_scale_length)
    have "X ! i ! j = (\<Sum>l<length V. col_scale U (zero_from r S) ! i ! l * V ! l ! j)"
      unfolding usv(5) using iU jV rowU usv(3)
      by (intro matmul_nth) (simp_all add: col_scale_length col_scale_row_length length_zero_from)
    also have "\<dots> = (\<Sum>l<?k. ?B i l * ?C l j)"
      unfolding usv(3) using iU rowU
      by (intro sum.cong) (simp_all add: col_scale_nth length_zero_from zero_from_nth)
    also have "\<dots> = (\<Sum>l<?s. ?B i l * ?C l j)"
      using sk by (intro sum.mono_neutral_right) auto
    also have "\<dots> = (\<Sum>l<nat r. ?B i l * ?C l j)"
      using sr by (intro sum.mono_neutral_left) auto
    finally show ?thesis .
  qed
  then show ?thesis unfolding rank_at_most_def
    by (intro exI[of _ ?B] exI[of _ ?C]) simp
qed

section \<open>The fixed-point step\<close>

lemma is_mat_same_shape: "is_mat m n A \<Longrightarrow> is_mat m n B \<Longrightarrow> same_shape A B"
  by (auto simp: is_mat_def same_shape_def intro!: nth_equalityI)

lemma T_returns:
  assumes "T la D Z lambd r = Some (Inr (X, Z'))"
  shows "proj_rank la Z r = Inr X" "same_shape X Z" "same_shape D Z"
    "\<exists>P. prox_max_norm (np_sub (np_sub (np_scale 2 X) Z) D) lambd = Some (Inr P)
         \<and> Z' = np_sub (np_add (np_add Z P) D) X"
  using assms
  by (auto simp: T_def split: sum.splits if_splits option.splits)

lemma T_total:
  assumes "0 < lambd" "proj_rank la Z r = Inr X" "same_shape X Z" "same_shape D Z"
  shows "\<exists>P. prox_max_norm (np_sub (np_sub (np_scale 2 X) Z) D) lambd = Some (Inr P)
           \<and> same_shape P (np_sub (np_sub (np_scale 2 X) Z) D)
           \<and> T la D Z lambd r = Some (Inr (X, np_sub (np_add (np_add Z P) D) X))"
proof -
  from prox_max_norm_total[OF assms(1)]
  obtain P where "prox_max_norm (np_sub (np_sub (np_scale 2 X) Z) D) lambd = Some (Inr P)"
    "same_shape P (np_sub (np_sub (np_scale 2 X) Z) D)" by blast
  with assms(2-4) show ?thesis by (simp add: T_def)
qed

lemma T_diag2_eval:
  "T la_diag2 [[3, 0], [0, 1]] [[3, 0], [0, 1]] 1 1 = Some (Inr ([[3, 0], [0, 0]], [[3, 0], [0, 1]]))"
proof -
  have p: "proj_rank la_diag2 [[3, 0], [0, 1]] 1 = Inr [[3, 0], [0, 0]]"
    by (simp add: proj_rank_def la_diag2_def zero_from_def slice_start_def ncols_def matmul_def
      col_scale_def Let_def upt_rec)
  have x: "np_sub (np_sub (np_scale 2 [[3, 0], [0, 0]]) [[3, 0], [0, 1]]) [[3, 0], [0, 1]]
           = [[0, 0], [0, -2]]"
    by (simp add: np_sub_def np_scale_def)
  have g: "get_root [[0, 0], [0, -2]] 1 default_tol = Some (Inr 1)"
    by (simp add: get_root_def np_max_def np_abs_def bisect_unfold residual_def np_sum_def
        np_maximum_scalar_def np_sub_scalar_def Let_def default_tol_def)
  have q: "prox_max_norm [[0, 0], [0, -2]] 1 = Some (Inr [[0, 0], [0, -1]])"
    by (subst prox_eval[OF g]) (simp_all add: np_sum_def np_abs_def)
  have "T la_diag2 [[3, 0], [0, 1]] [[3, 0], [0, 1]] 1 1
        = Some (Inr ([[3, 0], [0, 0]],
            np_sub (np_add (np_add [[3, 0], [0, 1]] [[0, 0], [0, -1]]) [[3, 0], [0, 1]])
              [[3, 0], [0, 0]]))"
    by (simp add: T_def p x q same_shape_def)
  then show ?thesis
    by (simp add: np_sub_def np_add_def)
qed



section \<open>The driver\<close>

lemma loop_body_returns:
  assumes "loop_body la Dg D r lambd k (Z, Xo, em, ef, rk, nm) = Some (Inr st')"
  shows "\<exists>X Z' a b c d. T la Dg Z lambd r = Some (Inr (X, Z')) \<and> same_shape X D
           \<and> diagnostics la D X = Some (a, b, c, d)
           \<and> st' = (Z', Some X, em[k := a], ef[k := b], rk[k := c], nm[k := d])"
proof -
  from assms obtain X Z' num den q v where
    f: "T la Dg Z lambd r = Some (Inr (X, Z'))" "same_shape X D"
    "np_max (np_abs (np_sub X D)) = Inr num" "np_max (np_abs D) = Inr den"
    "matrix_rank la X = Inr q" "norm_nuc la X = Inr v"
    "st' = (Z', Some X, em[k := np_divide num den],
            ef[k := np_divide (norm_fro (np_sub X D)) (norm_fro D)],
            rk[k := Finite (real q)], nm[k := Finite v])"
    by (auto simp: loop_body_def Let_def split: option.splits sum.splits if_splits prod.splits)
  have "diagnostics la D X = Some (np_divide num den,
          np_divide (norm_fro (np_sub X D)) (norm_fro D), Finite (real q), Finite v)"
    using f(3-6) by (simp add: diagnostics_def)
  with f show ?thesis by blast
qed

lemma diagnostics_cases:
  assumes "diagnostics la D X = Some (a, b, c, d)"
  obtains num den q v where "np_max (np_abs (np_sub X D)) = Inr num"
    "np_max (np_abs D) = Inr den" "matrix_rank la X = Inr q" "norm_nuc la X = Inr v"
    "a = np_divide num den" "b = np_divide (norm_fro (np_sub X D)) (norm_fro D)"
    "c = Finite (real q)" "d = Finite v"
  using assms by (auto simp: diagnostics_def split: sum.splits)

lemma loop_body_total:
  assumes "T la Dg Z lambd r = Some (Inr (X, Z'))" "same_shape X D"
    "diagnostics la D X = Some (a, b, c, d)"
  shows "loop_body la Dg D r lambd k (Z, Xo, em, ef, rk, nm)
         = Some (Inr (Z', Some X, em[k := a], ef[k := b], rk[k := c], nm[k := d]))"
proof -
  from assms(3) obtain num den q v where "np_max (np_abs (np_sub X D)) = Inr num"
    "np_max (np_abs D) = Inr den" "matrix_rank la X = Inr q" "norm_nuc la X = Inr v"
    "a = np_divide num den" "b = np_divide (norm_fro (np_sub X D)) (norm_fro D)"
    "c = Finite (real q)" "d = Finite v"
    by (rule diagnostics_cases)
  with assms(1,2) show ?thesis
    by (simp add: loop_body_def Let_def)
qed

lemma Z_seq_Suc:
  "Z_seq la Dg D lambd r k = Some (Inr Z) \<Longrightarrow> T la Dg Z lambd r = Some (Inr (X, Z')) \<Longrightarrow>
   Z_seq la Dg D lambd r (Suc k) = Some (Inr Z') \<and> X_seq la Dg D lambd r k = Some X"
  by (simp add: X_seq_def)

lemma for_loop_structure:
  assumes "for_loop la Dg D r lambd [a..<b] (Z, Xo, em, ef, rk, nm)
             = Some (Inr (Z', Xo', em', ef', rk', nm'))"
    and "Z_seq la Dg D lambd r a = Some (Inr Z)"
    and "a \<le> b" "b \<le> length em" "b \<le> length ef" "b \<le> length rk" "b \<le> length nm"
  shows "Z_seq la Dg D lambd r b = Some (Inr Z')
       \<and> length em' = length em \<and> length ef' = length ef
       \<and> length rk' = length rk \<and> length nm' = length nm
       \<and> (\<forall>k. a \<le> k \<and> k < b \<longrightarrow> (\<exists>Xk. X_seq la Dg D lambd r k = Some Xk
              \<and> diagnostics la D Xk = Some (em' ! k, ef' ! k, rk' ! k, nm' ! k)))
       \<and> (\<forall>k. k < a \<longrightarrow> em' ! k = em ! k \<and> ef' ! k = ef ! k \<and> rk' ! k = rk ! k \<and> nm' ! k = nm ! k)
       \<and> (if a < b then Xo' = X_seq la Dg D lambd r (b - 1) else Xo' = Xo)"
  using assms
proof (induction "b - a" arbitrary: a Z Xo em ef rk nm)
  case 0
  then have "a = b" by simp
  with 0 show ?case by auto
next
  case (Suc d)
  then have ab: "a < b" by simp
  then have upt: "[a..<b] = a # [Suc a..<b]" by (simp add: upt_rec)
  from Suc.prems(1) obtain st1 where
    st1: "loop_body la Dg D r lambd a (Z, Xo, em, ef, rk, nm) = Some (Inr st1)"
    and rest: "for_loop la Dg D r lambd [Suc a..<b] st1 = Some (Inr (Z', Xo', em', ef', rk', nm'))"
    unfolding upt by (auto split: option.splits sum.splits)
  from loop_body_returns[OF st1] obtain X Z1 e1 e2 e3 e4 where
    step: "T la Dg Z lambd r = Some (Inr (X, Z1))"
    and diag: "diagnostics la D X = Some (e1, e2, e3, e4)"
    and st1_eq: "st1 = (Z1, Some X, em[a := e1], ef[a := e2], rk[a := e3], nm[a := e4])"
    by blast
  from Z_seq_Suc[OF Suc.prems(2) step]
  have z1: "Z_seq la Dg D lambd r (Suc a) = Some (Inr Z1)" and xa: "X_seq la Dg D lambd r a = Some X"
    by simp_all
  have d: "d = b - Suc a" using Suc.hyps(2) by simp
  have ih: "Z_seq la Dg D lambd r b = Some (Inr Z')
       \<and> length em' = length (em[a := e1]) \<and> length ef' = length (ef[a := e2])
       \<and> length rk' = length (rk[a := e3]) \<and> length nm' = length (nm[a := e4])
       \<and> (\<forall>k. Suc a \<le> k \<and> k < b \<longrightarrow> (\<exists>Xk. X_seq la Dg D lambd r k = Some Xk
              \<and> diagnostics la D Xk = Some (em' ! k, ef' ! k, rk' ! k, nm' ! k)))
       \<and> (\<forall>k. k < Suc a \<longrightarrow> em' ! k = em[a := e1] ! k \<and> ef' ! k = ef[a := e2] ! k
              \<and> rk' ! k = rk[a := e3] ! k \<and> nm' ! k = nm[a := e4] ! k)
       \<and> (if Suc a < b then Xo' = X_seq la Dg D lambd r (b - 1) else Xo' = Some X)"
    using Suc.hyps(1)[OF d rest[unfolded st1_eq] z1] ab Suc.prems(4-7) by simp
  have ata: "em' ! a = e1 \<and> ef' ! a = e2 \<and> rk' ! a = e3 \<and> nm' ! a = e4"
    using ih ab Suc.prems(4-7) by simp
  have old: "\<forall>k. k < a \<longrightarrow> em' ! k = em ! k \<and> ef' ! k = ef ! k \<and> rk' ! k = rk ! k \<and> nm' ! k = nm ! k"
    using ih by auto
  have new: "\<exists>Xk. X_seq la Dg D lambd r k = Some Xk
              \<and> diagnostics la D Xk = Some (em' ! k, ef' ! k, rk' ! k, nm' ! k)"
    if "a \<le> k \<and> k < b" for k
  proof (cases "k = a")
    case True
    with xa diag ata show ?thesis by simp
  next
    case False
    with that have "Suc a \<le> k \<and> k < b" by simp
    with ih show ?thesis by blast
  qed
  have last: "Xo' = X_seq la Dg D lambd r (b - 1)"
  proof (cases "Suc a < b")
    case True with ih show ?thesis by simp
  next
    case False
    with ab have "b - 1 = a" by simp
    with ih False xa show ?thesis by simp
  qed
  from ih old new last ab show ?case by simp
qed

lemma is_mat_map2:
  assumes "is_mat m n A" "is_mat m n B"
  shows "is_mat m n (map2 (map2 f) A B)"
proof -
  have "length row = n" if "row \<in> set (map2 (map2 f) A B)" for row
  proof -
    from that obtain a b where ab: "(a, b) \<in> set (zip A B)" "row = map2 f a b" by auto
    then have "a \<in> set A" "b \<in> set B" by (auto dest: set_zip_leftD set_zip_rightD)
    with assms ab(2) show ?thesis by (simp add: is_mat_def)
  qed
  with assms show ?thesis by (simp add: is_mat_def)
qed

lemma is_mat_np_sub: "is_mat m n A \<Longrightarrow> is_mat m n B \<Longrightarrow> is_mat m n (np_sub A B)"
  unfolding np_sub_def by (rule is_mat_map2)

lemma is_mat_np_add: "is_mat m n A \<Longrightarrow> is_mat m n B \<Longrightarrow> is_mat m n (np_add A B)"
  unfolding np_add_def by (rule is_mat_map2)

lemma is_mat_map: "is_mat m n A \<Longrightarrow> is_mat m n (map (map f) A)"
  by (auto simp: is_mat_def)

lemma is_mat_np_scale: "is_mat m n A \<Longrightarrow> is_mat m n (np_scale c A)"
  unfolding np_scale_def by (rule is_mat_map)

lemma is_mat_np_abs: "is_mat m n A \<Longrightarrow> is_mat m n (np_abs A)"
  unfolding np_abs_def by (rule is_mat_map)

lemma same_shape_is_mat: "same_shape P Q \<Longrightarrow> is_mat m n Q \<Longrightarrow> is_mat m n P"
proof -
  assume s: "same_shape P Q" and q: "is_mat m n Q"
  have l: "length P = length Q" using s by (auto simp: same_shape_def dest: map_eq_imp_length_eq)
  have "length (P ! i) = n" if "i < length P" for i
  proof -
    have "map length P ! i = map length Q ! i" using s by (simp add: same_shape_def)
    with that l q show ?thesis by (simp add: is_mat_def)
  qed
  with l q show ?thesis by (auto simp: is_mat_def in_set_conv_nth)
qed

lemma is_mat_concat_nonempty: "is_mat m n A \<Longrightarrow> 0 < m \<Longrightarrow> 0 < n \<Longrightarrow> concat A \<noteq> []"
  by (cases A) (auto simp: is_mat_def)

lemma np_max_total: "is_mat m n A \<Longrightarrow> 0 < m \<Longrightarrow> 0 < n \<Longrightarrow> \<exists>v. np_max A = Inr v"
  using is_mat_concat_nonempty[of m n A] by (simp add: np_max_def)

lemma T_is_mat:
  assumes "0 < lambd" "is_mat m n Z" "is_mat m n D"
    "svd la Z = Inr (U, S, V)" "svd_shapes m n U S V"
  shows "\<exists>X Z'. T la D Z lambd r = Some (Inr (X, Z')) \<and> is_mat m n X \<and> is_mat m n Z'"
proof -
  from proj_rank_is_mat[OF assms(4,5), of r]
  obtain X where X: "proj_rank la Z r = Inr X" "is_mat m n X" by blast
  let ?arg = "np_sub (np_sub (np_scale 2 X) Z) D"
  have arg: "is_mat m n ?arg"
    using X(2) assms(2,3) by (intro is_mat_np_sub is_mat_np_scale)
  have sh: "same_shape X Z" "same_shape D Z"
    using X(2) assms(2,3) is_mat_same_shape by blast+
  from T_total[OF assms(1) X(1) sh]
  obtain P where P: "same_shape P ?arg"
    "T la D Z lambd r = Some (Inr (X, np_sub (np_add (np_add Z P) D) X))" by blast
  have "is_mat m n P" using same_shape_is_mat[OF P(1) arg] .
  then have "is_mat m n (np_sub (np_add (np_add Z P) D) X)"
    using X(2) assms(2,3) by (intro is_mat_np_sub is_mat_np_add)
  with P(2) X(2) show ?thesis by blast
qed

lemma diagnostics_total:
  assumes "is_mat m n X" "is_mat m n D" "0 < m" "0 < n"
    "matrix_rank la X = Inr q" "norm_nuc la X = Inr v"
  shows "\<exists>a b c d. diagnostics la D X = Some (a, b, c, d)"
proof -
  have "is_mat m n (np_abs (np_sub X D))" "is_mat m n (np_abs D)"
    using assms(1,2) by (auto intro: is_mat_np_abs is_mat_np_sub)
  from np_max_total[OF this(1) assms(3,4)] np_max_total[OF this(2) assms(3,4)]
  obtain num den where "np_max (np_abs (np_sub X D)) = Inr num" "np_max (np_abs D) = Inr den"
    by blast
  with assms(5,6) show ?thesis by (simp add: diagnostics_def)
qed

lemma for_loop_total:
  assumes "0 < lambd" "0 < m" "0 < n" "is_mat m n D" "is_mat m n Dg" "linalg_total m n la"
    "is_mat m n Z"
  shows "\<exists>st'. for_loop la Dg D r lambd ks (Z, Xo, em, ef, rk, nm) = Some (Inr st')"
  using assms(7)
proof (induction ks arbitrary: Z Xo em ef rk nm)
  case Nil
  then show ?case by simp
next
  case (Cons k ks)
  from assms(6) Cons.prems obtain U S V where
    usv: "svd la Z = Inr (U, S, V)" "svd_shapes m n U S V"
    unfolding linalg_total_def by blast
  from T_is_mat[OF assms(1) Cons.prems assms(5) usv, of r]
  obtain X Z' where step: "T la Dg Z lambd r = Some (Inr (X, Z'))" "is_mat m n X" "is_mat m n Z'"
    by blast
  from assms(6) step(2) obtain q v where qv: "matrix_rank la X = Inr q" "norm_nuc la X = Inr v"
    unfolding linalg_total_def by blast
  from diagnostics_total[OF step(2) assms(4,2,3) qv]
  obtain a b c d where dg: "diagnostics la D X = Some (a, b, c, d)" by blast
  have "same_shape X D" using step(2) assms(4) by (rule is_mat_same_shape)
  from loop_body_total[OF step(1) this dg]
  have body: "loop_body la Dg D r lambd k (Z, Xo, em, ef, rk, nm)
        = Some (Inr (Z', Some X, em[k := a], ef[k := b], rk[k := c], nm[k := d]))" .
  from Cons.IH[OF step(3)]
  obtain st' where "for_loop la Dg D r lambd ks
      (Z', Some X, em[k := a], ef[k := b], rk[k := c], nm[k := d]) = Some (Inr st')" by blast
  with body have "for_loop la Dg D r lambd (k # ks) (Z, Xo, em, ef, rk, nm) = Some (Inr st')"
    by simp
  then show ?case by (rule exI)
qed

lemma driver_structure:
  assumes "compute_low_rank_est la Dg D r lambd iters = Some (Inr (X, em, ef, rk, nm))"
  shows "1 \<le> iters" "length em = nat iters" "length ef = nat iters"
    "length rk = nat iters" "length nm = nat iters"
    "\<forall>k<nat iters. \<exists>Xk. X_seq la Dg D lambd r k = Some Xk
        \<and> diagnostics la D Xk = Some (em ! k, ef ! k, rk ! k, nm ! k)"
    "X_seq la Dg D lambd r (nat iters - 1) = Some X"
    "\<exists>Zf. Z_seq la Dg D lambd r (nat iters) = Some (Inr Zf)"
proof -
  let ?z = "replicate (nat iters) (Finite 0)"
  from assms have nn: "0 \<le> iters"
    by (auto simp: compute_low_rank_est_def split: if_splits)
  from assms obtain Zf where
    loop: "for_loop la Dg D r lambd [0..<nat iters] (D, None, ?z, ?z, ?z, ?z)
           = Some (Inr (Zf, Some X, em, ef, rk, nm))"
    by (auto simp: compute_low_rank_est_def Let_def split: if_splits option.splits sum.splits)
  have z0: "Z_seq la Dg D lambd r 0 = Some (Inr D)" by simp
  note s = for_loop_structure[OF loop z0]
  have s': "Z_seq la Dg D lambd r (nat iters) = Some (Inr Zf)
       \<and> length em = nat iters \<and> length ef = nat iters
       \<and> length rk = nat iters \<and> length nm = nat iters
       \<and> (\<forall>k. 0 \<le> k \<and> k < nat iters \<longrightarrow> (\<exists>Xk. X_seq la Dg D lambd r k = Some Xk
              \<and> diagnostics la D Xk = Some (em ! k, ef ! k, rk ! k, nm ! k)))
       \<and> (if 0 < nat iters then Some X = X_seq la Dg D lambd r (nat iters - 1) else Some X = None)"
    using s by simp
  then show "1 \<le> iters" by (auto split: if_splits)
  from s' show "length em = nat iters" "length ef = nat iters"
    "length rk = nat iters" "length nm = nat iters" by simp_all
  from s' show "\<forall>k<nat iters. \<exists>Xk. X_seq la Dg D lambd r k = Some Xk
        \<and> diagnostics la D Xk = Some (em ! k, ef ! k, rk ! k, nm ! k)" by simp
  from s' show "X_seq la Dg D lambd r (nat iters - 1) = Some X" by (auto split: if_splits)
  from s' show "\<exists>Zf. Z_seq la Dg D lambd r (nat iters) = Some (Inr Zf)" by blast
qed

lemma driver_total:
  assumes "1 \<le> iters" "0 < lambd" "0 < m" "0 < n" "is_mat m n D" "is_mat m n Dg"
    "linalg_total m n la"
  shows "\<exists>X em ef rk nm. compute_low_rank_est la Dg D r lambd iters
           = Some (Inr (X, em, ef, rk, nm))"
proof -
  let ?z = "replicate (nat iters) (Finite 0)"
  from for_loop_total[OF assms(2-4,5,6,7) assms(5)]
  obtain st' where loop: "for_loop la Dg D r lambd [0..<nat iters] (D, None, ?z, ?z, ?z, ?z)
       = Some (Inr st')" by blast
  obtain Zf Xo em ef rk nm where st': "st' = (Zf, Xo, em, ef, rk, nm)"
    by (cases st') auto
  have z0: "Z_seq la Dg D lambd r 0 = Some (Inr D)" by simp
  from for_loop_structure[OF loop[unfolded st'] z0] assms(1)
  have "Xo = X_seq la Dg D lambd r (nat iters - 1)"
    and "\<forall>k. 0 \<le> k \<and> k < nat iters \<longrightarrow> (\<exists>Xk. X_seq la Dg D lambd r k = Some Xk
              \<and> diagnostics la D Xk = Some (em ! k, ef ! k, rk ! k, nm ! k))"
    by (simp_all split: if_splits)
  moreover have "nat iters - 1 < nat iters" using assms(1) by simp
  ultimately obtain X where "Xo = Some X" by fastforce
  with loop st' assms(1) show ?thesis
    by (simp add: compute_low_rank_est_def Let_def)
qed

lemma is_mat_1x1: "is_mat 1 1 M \<longleftrightarrow> (\<exists>a. M = [[a]])"
proof
  assume "is_mat 1 1 M"
  then obtain row where "M = [row]" "length row = 1"
    by (cases M) (auto simp: is_mat_def)
  then show "\<exists>a. M = [[a]]" by (cases row) auto
qed (auto simp: is_mat_def)

lemma linalg_total_1x1: "linalg_total 1 1 la_1x1"
  unfolding linalg_total_def is_mat_1x1
  by (auto simp: la_1x1_def svd_shapes_def is_mat_def)


lemma proj_rank_1x1_full: "proj_rank la_1x1 [[a]] 1 = Inr [[a]]"
  by (simp add: proj_rank_def la_1x1_def zero_from_def slice_start_def ncols_def matmul_def
      col_scale_def Let_def abs_if)






lemma np_divide_zero: "\<not> is_finite (np_divide a 0)"
  by (simp add: np_divide_def)

lemma zero_matrix_max:
  assumes "is_mat m n D" "\<forall>v\<in>set (concat D). v = 0" "0 < m" "0 < n"
  shows "np_max (np_abs D) = Inr 0"
proof -
  have ne: "concat D \<noteq> []" using assms(1,3,4) by (rule is_mat_concat_nonempty)
  then have "set (map abs (concat D)) = {0}"
    using assms(2) by (cases "concat D") auto
  with ne show ?thesis
    unfolding np_max_def concat_np_abs by simp
qed

lemma zero_matrix_fro:
  assumes "\<forall>v\<in>set (concat D). v = 0"
  shows "norm_fro D = 0"
proof -
  have "(\<Sum>v\<leftarrow>concat D. v\<^sup>2) = (\<Sum>v\<leftarrow>concat D. 0)"
    by (rule arg_cong[where f = sum_list], rule map_cong) (use assms in auto)
  then show ?thesis by (simp add: norm_fro_def)
qed

text \<open>
  Claim C9. For an all-zero target \<open>D\<close> both divisors, \<open>max|D|\<close> and the Frobenius norm of
  \<open>D\<close>, are zero; the driver does not raise but returns, and no entry of \<open>err_max\<close> and
  \<open>err_fro\<close> is a finite number.
\<close>

theorem zero_target_divides_by_zero:
  assumes "is_mat m n D" and "\<forall>v\<in>set (concat D). v = 0" and "0 < m" and "0 < n"
    and "1 \<le> iters" and "0 < lambd" and "is_mat m n Dg" and "linalg_total m n la"
  shows "np_max (np_abs D) = Inr 0 \<and> norm_fro D = 0
         \<and> (\<exists>X em ef rk nm. compute_low_rank_est la Dg D r lambd iters
                = Some (Inr (X, em, ef, rk, nm))
              \<and> length em = nat iters \<and> length ef = nat iters
              \<and> (\<forall>k<nat iters. \<not> is_finite (em ! k) \<and> \<not> is_finite (ef ! k)))"
proof -
  have mx: "np_max (np_abs D) = Inr 0" using assms(1-4) by (rule zero_matrix_max)
  have fr: "norm_fro D = 0" using assms(2) by (rule zero_matrix_fro)
  from driver_total[OF assms(5,6,3,4,1,7,8)]
  obtain X em ef rk nm where
    ret: "compute_low_rank_est la Dg D r lambd iters = Some (Inr (X, em, ef, rk, nm))" by blast
  note s = driver_structure[OF ret]
  have "\<not> is_finite (em ! k) \<and> \<not> is_finite (ef ! k)" if "k < nat iters" for k
  proof -
    from s(6) that obtain Xk where
      "diagnostics la D Xk = Some (em ! k, ef ! k, rk ! k, nm ! k)" by blast
    then obtain num den where "np_max (np_abs D) = Inr den" "em ! k = np_divide num den"
      "ef ! k = np_divide (norm_fro (np_sub Xk D)) (norm_fro D)"
      by (rule diagnostics_cases)
    with mx fr show ?thesis by (simp add: np_divide_zero)
  qed
  with mx fr ret s(2,3) show ?thesis by blast
qed

lemma T_1x1_zero_eval: "T la_1x1 [[0]] [[0]] 1 1 = Some (Inr ([[0]], [[0]]))"
proof -
  have x: "np_sub (np_sub (np_scale 2 [[0]]) [[0]]) [[0]] = [[0]]"
    by (simp add: np_sub_def np_scale_def)
  have q: "prox_max_norm [[0]] 1 = Some (Inr [[0]])"
    by (simp add: prox_max_norm_def prox_max_norm_with_def np_sum_def np_abs_def np_zeros_like_def)
  have "T la_1x1 [[0]] [[0]] 1 1
        = Some (Inr ([[0]], np_sub (np_add (np_add [[0]] [[0]]) [[0]]) [[0]]))"
    by (simp add: T_def proj_rank_1x1_full x q same_shape_def)
  then show ?thesis
    by (simp add: np_sub_def np_add_def)
qed

lemma loop_body_1x1_zero_eval:
  "loop_body la_1x1 [[0]] [[0]] 1 1 k ([[0]], Xo, em, ef, rk, nm)
   = Some (Inr ([[0]], Some [[0]], em[k := NaN], ef[k := NaN],
                rk[k := Finite 0], nm[k := Finite 0]))"
proof -
  have d: "diagnostics la_1x1 [[0]] [[0]] = Some (NaN, NaN, Finite 0, Finite 0)"
    by (simp add: diagnostics_def np_max_def np_abs_def np_sub_def la_1x1_def np_divide_def
        norm_fro_def)
  show ?thesis
    by (rule loop_body_total[OF T_1x1_zero_eval _ d]) (simp add: same_shape_def)
qed

lemma driver_1x1_zero_eval:
  "compute_low_rank_est la_1x1 [[0]] [[0]] 1 1 2
   = Some (Inr ([[0]], [NaN, NaN], [NaN, NaN], [Finite 0, Finite 0], [Finite 0, Finite 0]))"
  by (simp add: compute_low_rank_est_def Let_def upt_rec loop_body_1x1_zero_eval numeral_2_eq_2)

theorem zero_target_divides_by_zero_witness:
  "is_mat 1 1 [[0]] \<and> set (concat [[0::real]]) = {0} \<and> (0::nat) < 1 \<and> (1::int) \<le> 2
   \<and> (0::real) < 1 \<and> linalg_total 1 1 la_1x1
   \<and> compute_low_rank_est la_1x1 [[0]] [[0]] 1 1 2
       = Some (Inr ([[0]], [NaN, NaN], [NaN, NaN], [Finite 0, Finite 0], [Finite 0, Finite 0]))
   \<and> np_max (np_abs [[0]]) = Inr 0 \<and> norm_fro [[0]] = 0
   \<and> (\<exists>X em ef rk nm. compute_low_rank_est la_1x1 [[0]] [[0]] 1 1 2
          = Some (Inr (X, em, ef, rk, nm))
        \<and> length em = nat 2 \<and> length ef = nat 2
        \<and> (\<forall>k<nat 2. \<not> is_finite (em ! k) \<and> \<not> is_finite (ef ! k)))"
proof -
  have m: "is_mat 1 1 [[0]]" by (simp add: is_mat_def)
  have z: "\<forall>v\<in>set (concat [[0::real]]). v = 0" by simp
  have p: "(0::nat) < 1" by simp
  have i: "(1::int) \<le> 2" by simp
  have l: "(0::real) < 1" by simp
  from zero_target_divides_by_zero[OF m z p p i l m linalg_total_1x1, of 1]
    m p i l linalg_total_1x1 driver_1x1_zero_eval
  show ?thesis by auto
qed

section \<open>The rank of the iterates\<close>

lemma X_seq_step:
  assumes "X_seq la Dg D lambd r k = Some Xk"
  shows "\<exists>Z Z'. T la Dg Z lambd r = Some (Inr (Xk, Z'))"
  using assms by (auto simp: X_seq_def split: option.splits sum.splits prod.splits)

text \<open>The notion is not void: the identity of size two is not of rank at most one.\<close>

lemma identity_not_rank_one: "\<not> rank_at_most 1 [[1, 0], [0, 1]]"
proof
  assume "rank_at_most 1 [[1, 0], [0, 1]]"
  then obtain B C :: "nat \<Rightarrow> nat \<Rightarrow> real" where
    e: "\<forall>i<length [[1, 0], [0, 1::real]]. \<forall>j<length ([[1, 0], [0, 1::real]] ! i).
          [[1, 0], [0, 1]] ! i ! j = (\<Sum>l<1. B i l * C l j)"
    unfolding rank_at_most_def by blast
  have "B 0 0 * C 0 0 = 1" using e[rule_format, of 0 0] by simp
  moreover have "B 0 0 * C 0 1 = 0" using e[rule_format, of 0 1] by simp
  moreover have "B 1 0 * C 0 0 = 0" using e[rule_format, of 1 0] by simp
  moreover have "B 1 0 * C 0 1 = 1" using e[rule_format, of 1 1] by simp
  ultimately show False by (metis mult_eq_0_iff zero_neq_one)
qed

text \<open>
  Claim C6. For a rank target \<open>r \<ge> 0\<close>, whatever \<open>proj_rank(A, r)\<close> returns has rank at
  most \<open>r\<close>, and so has every iterate \<open>X\<close> of the fixed-point step and the \<open>X\<close> the driver
  returns; \<open>proj_rank\<close> returns whenever the decomposition does.
\<close>

theorem proj_rank_rank_bound:
  assumes "0 \<le> r"
  shows "(\<forall>X. proj_rank la A r = Inr X \<longrightarrow> rank_at_most (nat r) X)
       \<and> (\<forall>X Z'. T la Dg Z lambd r = Some (Inr (X, Z')) \<longrightarrow> rank_at_most (nat r) X)
       \<and> (\<forall>k Xk. X_seq la Dg D lambd r k = Some Xk \<longrightarrow> rank_at_most (nat r) Xk)
       \<and> (\<forall>X em ef rk nm.
            compute_low_rank_est la Dg D r lambd iters = Some (Inr (X, em, ef, rk, nm)) \<longrightarrow>
            rank_at_most (nat r) X)
       \<and> (\<forall>m n U S V. svd la A = Inr (U, S, V) \<and> svd_shapes m n U S V \<longrightarrow>
            (\<exists>X. proj_rank la A r = Inr X \<and> is_mat m n X))"
proof (intro conjI allI impI)
  fix X assume "proj_rank la A r = Inr X"
  then show "rank_at_most (nat r) X" using assms by (rule proj_rank_rank)
next
  fix X Z' assume "T la Dg Z lambd r = Some (Inr (X, Z'))"
  then have "proj_rank la Z r = Inr X" by (rule T_returns(1))
  then show "rank_at_most (nat r) X" using assms by (rule proj_rank_rank)
next
  fix k Xk assume "X_seq la Dg D lambd r k = Some Xk"
  then obtain Z0 Z' where "T la Dg Z0 lambd r = Some (Inr (Xk, Z'))"
    using X_seq_step by blast
  then have "proj_rank la Z0 r = Inr Xk" by (rule T_returns(1))
  then show "rank_at_most (nat r) Xk" using assms by (rule proj_rank_rank)
next
  fix X em ef rk nm
  assume "compute_low_rank_est la Dg D r lambd iters = Some (Inr (X, em, ef, rk, nm))"
  then have "X_seq la Dg D lambd r (nat iters - 1) = Some X" by (rule driver_structure(7))
  then obtain Z0 Z' where "T la Dg Z0 lambd r = Some (Inr (X, Z'))"
    using X_seq_step by blast
  then have "proj_rank la Z0 r = Inr X" by (rule T_returns(1))
  then show "rank_at_most (nat r) X" using assms by (rule proj_rank_rank)
next
  fix m n U S V assume "svd la A = Inr (U, S, V) \<and> svd_shapes m n U S V"
  then show "\<exists>X. proj_rank la A r = Inr X \<and> is_mat m n X"
    using proj_rank_is_mat by blast
qed

theorem proj_rank_rank_bound_witness:
  "(0::int) \<le> 1
   \<and> proj_rank la_diag2 [[3, 0], [0, 1]] 1 = Inr [[3, 0], [0, 0]]
   \<and> rank_at_most (nat 1) [[3, 0], [0, 0]]
   \<and> T la_diag2 [[3, 0], [0, 1]] [[3, 0], [0, 1]] 1 1
       = Some (Inr ([[3, 0], [0, 0]], [[3, 0], [0, 1]]))
   \<and> svd la_diag2 [[3, 0], [0, 1]] = Inr ([[1, 0], [0, 1]], [3, 1], [[1, 0], [0, 1]])
   \<and> svd_shapes 2 2 [[1, 0], [0, 1]] [3, 1] [[1, 0], [0, 1]]
   \<and> (\<exists>X. proj_rank la_diag2 [[3, 0], [0, 1]] 1 = Inr X \<and> is_mat 2 2 X)"
proof -
  have r: "(0::int) \<le> 1" by simp
  note b = proj_rank_rank_bound[OF r, of la_diag2 "[[3, 0], [0, 1]]" "[[3, 0], [0, 1]]"
      "[[3, 0], [0, 1]]" 1 "[[3, 0], [0, 1]]" 1]
  have s: "svd la_diag2 [[3, 0], [0, 1]] = Inr ([[1, 0], [0, 1]], [3, 1], [[1, 0], [0, 1]])"
    by (simp add: la_diag2_svd)
  from b have "rank_at_most (nat 1) [[3, 0], [0, 0]]"
    using proj_rank_diag2_eval by blast
  moreover from b have "\<exists>X. proj_rank la_diag2 [[3, 0], [0, 1]] 1 = Inr X \<and> is_mat 2 2 X"
    using s svd_shapes_diag2[of 3 1] by blast
  ultimately show ?thesis
    using r proj_rank_diag2_eval T_diag2_eval s svd_shapes_diag2[of 3 1] by blast
qed

section \<open>Idempotence of the rank projection\<close>

text \<open>A homogeneous linear system with fewer equations than unknowns has a non-trivial
  solution.\<close>

lemma underdetermined_system:
  fixes N :: "'r \<Rightarrow> 'c \<Rightarrow> real"
  assumes "finite R" "finite C" "card R < card C"
  shows "\<exists>c. (\<exists>b\<in>C. c b \<noteq> 0) \<and> (\<forall>l\<in>R. (\<Sum>b\<in>C. N l b * c b) = 0)"
  using assms
proof (induction R arbitrary: C N rule: finite_induct)
  case empty
  then have "C \<noteq> {}" by auto
  then obtain b where "b \<in> C" by blast
  then show ?case by (intro exI[of _ "\<lambda>_. 1"]) auto
next
  case (insert p R)
  have cardR: "card R < card C" using insert.prems(2) insert.hyps by simp
  show ?case
  proof (cases "\<forall>q\<in>C. N p q = 0")
    case True
    from insert.IH[OF insert.prems(1) cardR, of N]
    obtain c where c: "\<exists>b\<in>C. c b \<noteq> 0" "\<forall>l\<in>R. (\<Sum>b\<in>C. N l b * c b) = 0" by blast
    have "(\<Sum>b\<in>C. N p b * c b) = 0" using True by simp
    with c show ?thesis by (intro exI[of _ c]) auto
  next
    case False
    then obtain q where q: "q \<in> C" "N p q \<noteq> 0" by blast
    let ?C = "C - {q}"
    let ?N = "\<lambda>l b. N l b - N l q / N p q * N p b"
    have fin: "finite ?C" using insert.prems(1) by simp
    have card: "card R < card ?C"
      using insert.prems(1,2) insert.hyps q(1) by simp
    from insert.IH[OF fin card, of ?N]
    obtain c where c: "\<exists>b\<in>?C. c b \<noteq> 0" "\<forall>l\<in>R. (\<Sum>b\<in>?C. ?N l b * c b) = 0" by blast
    let ?\<sigma> = "\<lambda>l. \<Sum>b\<in>?C. N l b * c b"
    let ?c = "c(q := - ?\<sigma> p / N p q)"
    have split: "(\<Sum>b\<in>C. N l b * ?c b) = N l q * (- ?\<sigma> p / N p q) + ?\<sigma> l" for l
    proof -
      have "(\<Sum>b\<in>C. N l b * ?c b) = N l q * ?c q + (\<Sum>b\<in>?C. N l b * ?c b)"
        using insert.prems(1) q(1) by (rule sum.remove)
      also have "(\<Sum>b\<in>?C. N l b * ?c b) = ?\<sigma> l"
        by (intro sum.cong) auto
      finally show ?thesis by simp
    qed
    have "(\<Sum>b\<in>C. N p b * ?c b) = 0"
      unfolding split using q(2) by simp
    moreover have "(\<Sum>b\<in>C. N l b * ?c b) = 0" if "l \<in> R" for l
    proof -
      from c(2) that have "(\<Sum>b\<in>?C. ?N l b * c b) = 0" by blast
      also have "(\<Sum>b\<in>?C. ?N l b * c b) = ?\<sigma> l - N l q / N p q * ?\<sigma> p"
        by (simp add: sum_subtractf sum_distrib_left algebra_simps)
      finally show ?thesis unfolding split by (simp add: algebra_simps)
    qed
    moreover have "\<exists>b\<in>C. ?c b \<noteq> 0" using c(1) by auto
    ultimately show ?thesis by (intro exI[of _ ?c]) auto
  qed
qed

text \<open>A diagonal array with \<open>s + 1\<close> non-zero diagonal entries is not a sum of \<open>s\<close> outer
  products.\<close>

lemma diagonal_not_low_rank:
  fixes M N :: "nat \<Rightarrow> nat \<Rightarrow> real"
  assumes G: "\<And>a b. a \<le> s \<Longrightarrow> b \<le> s \<Longrightarrow> (\<Sum>l<s. M a l * N l b) = (if a = b then d a else 0)"
    and d: "\<And>a. a \<le> s \<Longrightarrow> d a \<noteq> 0"
  shows False
proof -
  have "card {..<s} < card {..s}" by simp
  from underdetermined_system[OF _ _ this, of N]
  obtain c where c: "\<exists>b\<in>{..s}. c b \<noteq> 0" "\<forall>l\<in>{..<s}. (\<Sum>b\<in>{..s}. N l b * c b) = 0" by auto
  have "c a = 0" if a: "a \<le> s" for a
  proof -
    have "(\<Sum>b\<le>s. (\<Sum>l<s. M a l * N l b) * c b) = (\<Sum>b\<le>s. (if a = b then d a else 0) * c b)"
      using a by (intro sum.cong refl) (simp add: G)
    also have "\<dots> = d a * c a"
      using a by (simp add: if_distrib[of "\<lambda>v. v * _"] sum.delta' cong: if_cong)
    finally have "d a * c a = (\<Sum>b\<le>s. (\<Sum>l<s. M a l * N l b) * c b)" by simp
    also have "\<dots> = (\<Sum>b\<le>s. \<Sum>l<s. M a l * (N l b * c b))"
      by (simp add: sum_distrib_right mult.assoc)
    also have "\<dots> = (\<Sum>l<s. \<Sum>b\<le>s. M a l * (N l b * c b))" by (rule sum.swap)
    also have "\<dots> = (\<Sum>l<s. M a l * (\<Sum>b\<le>s. N l b * c b))" by (simp add: sum_distrib_left)
    also have "\<dots> = 0" using c(2) by simp
    finally show ?thesis using d[OF a] by simp
  qed
  with c(1) show False by auto
qed

text \<open>Sandwiching a product between two vectors.\<close>

lemma sandwich_product:
  fixes x y :: "nat \<Rightarrow> real" and f g :: "nat \<Rightarrow> nat \<Rightarrow> real"
  shows "(\<Sum>i<m. \<Sum>j<n. x i * (\<Sum>l<q. f i l * g l j) * y j)
         = (\<Sum>l<q. (\<Sum>i<m. x i * f i l) * (\<Sum>j<n. g l j * y j))"
proof -
  have "(\<Sum>i<m. \<Sum>j<n. x i * (\<Sum>l<q. f i l * g l j) * y j)
        = (\<Sum>i<m. \<Sum>j<n. \<Sum>l<q. (x i * f i l) * (g l j * y j))"
    by (simp add: sum_distrib_left sum_distrib_right mult.assoc)
  also have "\<dots> = (\<Sum>i<m. \<Sum>l<q. \<Sum>j<n. (x i * f i l) * (g l j * y j))"
    by (intro sum.cong refl sum.swap)
  also have "\<dots> = (\<Sum>l<q. \<Sum>i<m. \<Sum>j<n. (x i * f i l) * (g l j * y j))"
    by (rule sum.swap)
  also have "\<dots> = (\<Sum>l<q. (\<Sum>i<m. x i * f i l) * (\<Sum>j<n. g l j * y j))"
    by (simp add: sum_product)
  finally show ?thesis .
qed

lemma svd_spec_tail_zero:
  fixes P Q :: "nat \<Rightarrow> nat \<Rightarrow> real"
  assumes spec: "svd_spec m n B U' S' V'"
    and low: "\<And>i j. i < m \<Longrightarrow> j < n \<Longrightarrow> B ! i ! j = (\<Sum>l<s. P i l * Q l j)"
    and l: "s \<le> l" "l < min m n"
  shows "S' ! l = 0"
proof (rule ccontr)
  let ?k = "min m n"
  assume nz: "S' ! l \<noteq> 0"
  have orthU: "\<And>a b. a < ?k \<Longrightarrow> b < ?k \<Longrightarrow>
      (\<Sum>i<m. U' ! i ! a * U' ! i ! b) = (if a = b then 1 else 0)"
    and orthV: "\<And>a b. a < ?k \<Longrightarrow> b < ?k \<Longrightarrow>
      (\<Sum>j<n. V' ! a ! j * V' ! b ! j) = (if a = b then 1 else 0)"
    and nonneg: "\<And>a. a < ?k \<Longrightarrow> 0 \<le> S' ! a"
    and desc: "\<And>a b. a < ?k \<Longrightarrow> b < ?k \<Longrightarrow> a \<le> b \<Longrightarrow> S' ! b \<le> S' ! a"
    and recon: "\<And>i j. i < m \<Longrightarrow> j < n \<Longrightarrow>
      B ! i ! j = (\<Sum>l<?k. U' ! i ! l * S' ! l * V' ! l ! j)"
    using spec unfolding svd_spec_def by blast+
  have pos: "S' ! a \<noteq> 0" if "a \<le> s" for a
  proof -
    have "a < ?k" "a \<le> l" using that l by simp_all
    from desc[OF this(1) l(2) this(2)] nonneg[OF l(2)] nz show ?thesis by simp
  qed
  let ?M = "\<lambda>a l. \<Sum>i<m. U' ! i ! a * P i l"
  let ?N = "\<lambda>l b. \<Sum>j<n. Q l j * V' ! b ! j"
  have "(\<Sum>l<s. ?M a l * ?N l b) = (if a = b then S' ! a else 0)" if ab: "a \<le> s" "b \<le> s" for a b
  proof -
    have ak: "a < ?k" and bk: "b < ?k" using ab l by simp_all
    have "(\<Sum>l<s. ?M a l * ?N l b)
          = (\<Sum>i<m. \<Sum>j<n. U' ! i ! a * (\<Sum>l<s. P i l * Q l j) * V' ! b ! j)"
      by (rule sandwich_product[symmetric])
    also have "\<dots> = (\<Sum>i<m. \<Sum>j<n. U' ! i ! a * (\<Sum>l<?k. (U' ! i ! l * S' ! l) * V' ! l ! j)
                       * V' ! b ! j)"
      by (intro sum.cong refl) (simp add: low[symmetric] recon)
    also have "\<dots> = (\<Sum>l<?k. (\<Sum>i<m. U' ! i ! a * (U' ! i ! l * S' ! l))
                       * (\<Sum>j<n. V' ! l ! j * V' ! b ! j))"
      by (rule sandwich_product)
    also have "\<dots> = (\<Sum>l<?k. (if a = l then S' ! l else 0) * (if l = b then 1 else 0))"
    proof (intro sum.cong refl)
      fix l assume "l \<in> {..<?k}"
      then have lk: "l < ?k" by simp
      have "(\<Sum>i<m. U' ! i ! a * (U' ! i ! l * S' ! l)) = (\<Sum>i<m. U' ! i ! a * U' ! i ! l) * S' ! l"
        by (simp add: sum_distrib_right mult.assoc)
      also have "\<dots> = (if a = l then S' ! l else 0)"
        by (simp add: orthU[OF ak lk])
      finally show "(\<Sum>i<m. U' ! i ! a * (U' ! i ! l * S' ! l)) * (\<Sum>j<n. V' ! l ! j * V' ! b ! j)
            = (if a = l then S' ! l else 0) * (if l = b then 1 else 0)"
        by (simp add: orthV[OF lk bk])
    qed
    also have "\<dots> = (\<Sum>l<?k. if l = a then (if a = b then S' ! a else 0) else 0)"
      by (intro sum.cong refl) auto
    also have "\<dots> = (if a = b then S' ! a else 0)"
      using ak by (simp add: sum.delta)
    finally show ?thesis .
  qed
  from diagonal_not_low_rank[of s ?M ?N "\<lambda>a. S' ! a", OF this pos] show False by blast
qed

text \<open>
  Claim C7. The rank projection is idempotent: when the decomposition of \<open>A\<close> has the
  documented shapes and that of \<open>B = proj_rank(A, r)\<close> is a singular value decomposition
  of \<open>B\<close>, then \<open>proj_rank(B, r) = B\<close>. The singular values of \<open>B\<close> from the index where the
  slice \<open>S[r:]\<close> starts are zero already, since \<open>B\<close> is a sum of that many outer products.
\<close>

theorem proj_rank_idempotent:
  assumes "svd la A = Inr (U, S, V)" and "svd_shapes m n U S V"
    and "proj_rank la A r = Inr B"
    and "svd la B = Inr (U', S', V')" and "svd_spec m n B U' S' V'"
  shows "proj_rank la B r = Inr B"
proof -
  let ?k = "min m n"
  let ?s = "slice_start r ?k"
  have lenS: "length S = ?k" using assms(2) by (simp add: svd_shapes_def)
  have shapes': "svd_shapes m n U' S' V'" using assms(5) by (simp add: svd_spec_def)
  then have lenS': "length S' = ?k" by (simp add: svd_shapes_def)
  have sk: "?s \<le> ?k" by (rule slice_start_le)
  from proj_rank_is_mat[OF assms(1,2), of r] assms(3)
  have matB: "is_mat m n B" by simp
  have low: "B ! i ! j = (\<Sum>l<?s. (U ! i ! l * S ! l) * V ! l ! j)" if "i < m" "j < n" for i j
  proof -
    from proj_rank_nth[OF assms(1,2) that, of r] assms(3)
    have "B ! i ! j = (\<Sum>l<?k. U ! i ! l * zero_from r S ! l * V ! l ! j)" by simp
    also have "\<dots> = (\<Sum>l<?s. U ! i ! l * zero_from r S ! l * V ! l ! j)"
      using sk by (intro sum.mono_neutral_right) (auto simp: zero_from_nth lenS)
    also have "\<dots> = (\<Sum>l<?s. (U ! i ! l * S ! l) * V ! l ! j)"
      using sk by (intro sum.cong refl) (simp add: zero_from_nth lenS)
    finally show ?thesis .
  qed
  have tail: "S' ! l = 0" if "?s \<le> l" "l < ?k" for l
    using assms(5) low that by (rule svd_spec_tail_zero)
  have same: "zero_from r S' ! l = S' ! l" if "l < ?k" for l
    using that tail[of l] by (simp add: zero_from_nth lenS')
  have recon: "B ! i ! j = (\<Sum>l<?k. U' ! i ! l * S' ! l * V' ! l ! j)" if "i < m" "j < n" for i j
    using assms(5) that unfolding svd_spec_def by blast
  from proj_rank_is_mat[OF assms(4) shapes', of r]
  obtain X where X: "proj_rank la B r = Inr X" "is_mat m n X" by blast
  have "X = B"
  proof (rule mat_eqI[OF X(2) matB])
    fix i j assume ij: "i < m" "j < n"
    from proj_rank_nth[OF assms(4) shapes' ij, of r] X(1)
    have "X ! i ! j = (\<Sum>l<?k. U' ! i ! l * zero_from r S' ! l * V' ! l ! j)" by simp
    also have "\<dots> = (\<Sum>l<?k. U' ! i ! l * S' ! l * V' ! l ! j)"
      by (intro sum.cong refl) (simp add: same)
    also have "\<dots> = B ! i ! j" using recon[OF ij] by simp
    finally show "X ! i ! j = B ! i ! j" .
  qed
  with X(1) show ?thesis by simp
qed

lemma svd_spec_diag2: "svd_spec 2 2 [[3, 0], [0, 0]] [[1, 0], [0, 1]] [3, 0] [[1, 0], [0, 1]]"
  unfolding svd_spec_def
  by (simp add: svd_shapes_def is_mat_def numeral_2_eq_2 less_Suc_eq lessThan_Suc)

theorem proj_rank_idempotent_witness:
  "svd la_diag2 [[3, 0], [0, 1]] = Inr ([[1, 0], [0, 1]], [3, 1], [[1, 0], [0, 1]])
   \<and> svd_shapes 2 2 [[1, 0], [0, 1]] [3, 1] [[1, 0], [0, 1]]
   \<and> proj_rank la_diag2 [[3, 0], [0, 1]] 1 = Inr [[3, 0], [0, 0]]
   \<and> svd la_diag2 [[3, 0], [0, 0]] = Inr ([[1, 0], [0, 1]], [3, 0], [[1, 0], [0, 1]])
   \<and> svd_spec 2 2 [[3, 0], [0, 0]] [[1, 0], [0, 1]] [3, 0] [[1, 0], [0, 1]]
   \<and> proj_rank la_diag2 [[3, 0], [0, 0]] 1 = Inr [[3, 0], [0, 0]]"
proof -
  have a: "svd la_diag2 [[3, 0], [0, 1]] = Inr ([[1, 0], [0, 1]], [3, 1], [[1, 0], [0, 1]])"
    by (simp add: la_diag2_svd)
  have b: "svd la_diag2 [[3, 0], [0, 0]] = Inr ([[1, 0], [0, 1]], [3, 0], [[1, 0], [0, 1]])"
    by (simp add: la_diag2_svd)
  from proj_rank_idempotent[OF a svd_shapes_diag2 proj_rank_diag2_eval b svd_spec_diag2]
    a b svd_shapes_diag2[of 3 1] proj_rank_diag2_eval svd_spec_diag2
  show ?thesis by blast
qed

end
